theory Spec2Isabelle
  imports Main
begin

section \<open>Data model\<close>

text \<open>
  The test tree of the adapter: \<open>AbstractTest\<close> (src/AbstractTest.ts) is a leaf, a
  \<open>Suite\<close> is a group. Objects are told apart by \<open>item_id\<close>, the value \<open>generateId()\<close>
  gave them (the source's field is called \<open>id\<close>); \<open>src_file\<close> and \<open>src_line\<close> are the
  fields \<open>_file\<close> and \<open>_line\<close>, \<open>test_state\<close> is the field \<open>state\<close>. The protected field
  \<open>_skipped\<close> is \<open>own_skipped\<close>; the getter \<open>skipped\<close> is a function below. The part of the owning
  runnable a test reads (\<open>aRunnable.properties.markAsSkipped\<close>) travels with the test.
  \<open>test_class\<close> is the class of the object: the test class of the framework, or the
  anonymous class of \<open>_createError\<close> (AbstractRunnable.ts), which has a \<open>compare\<close> of its own
  and no \<open>update\<close>.
\<close>

datatype TestRunState = Unset | Running | Passed | Failed | Skipped | Errored

text \<open>\<open>TestState\<close>: \<open>messages\<close> is optional in the source (\<open>None\<close> is \<open>undefined\<close>).\<close>

record TestState =
  state :: TestRunState
  messages :: "string list option"

text \<open>
  A static event is an object, and \<open>_updateBase\<close> compares it by reference:
  \<open>static_object\<close> is the identity of the object, so that two records are equal exactly
  when they are the same object.
\<close>

record StaticTestEventBase =
  static_object :: nat
  static_state :: TestRunState
  static_message :: string

datatype TestClass = FrameworkTest | ErrorTest

record Runnable =
  runnable_id :: nat
  markAsSkipped :: bool

record AbstractTest =
  item_id :: nat
  testNameAsId :: string
  label :: string
  src_file :: "string option"
  src_line :: "int option"
  own_skipped :: bool
  tags :: "string list"
  testDescription :: "string option"
  typeParam :: "string option"
  valueParam :: "string option"
  staticEvent :: "StaticTestEventBase option"
  test_state :: TestState
  aRunnable :: Runnable
  test_class :: TestClass

section \<open>Selection (AbstractTest.ts)\<close>

text \<open>\<open>Array.prototype.indexOf\<close>: the first position of the element, or \<open>-1\<close>.\<close>

fun indexOf :: "'a list \<Rightarrow> 'a \<Rightarrow> int" where
  "indexOf [] x = -1"
| "indexOf (y # ys) x =
     (if y = x then 0 else (let r = indexOf ys x in if r = -1 then -1 else r + 1))"

definition skipped :: "AbstractTest \<Rightarrow> bool" where
  "skipped this = (own_skipped this \<or> markAsSkipped (aRunnable this))"

text \<open>
  \<open>collectTestToRun\<close> of a leaf. The requested items \<open>tests\<close> are objects compared by
  reference, here their ids; \<open>filter_fn\<close> is the parameter \<open>filter\<close> (its default
  accepts every test).
\<close>

definition collectTestToRun ::
  "nat list \<Rightarrow> bool \<Rightarrow> (AbstractTest \<Rightarrow> bool) \<Rightarrow> AbstractTest \<Rightarrow> AbstractTest list" where
  "collectTestToRun tests isParentIn filter_fn this =
     (if (isParentIn \<and> \<not> skipped this) \<or> indexOf tests (item_id this) \<noteq> -1
      then (if filter_fn this then [this] else [])
      else [])"

text \<open>The filter \<open>AbstractRunnable.run\<close> passes: \<open>test.aRunnable === this\<close>.\<close>

definition own_tests_filter :: "nat \<Rightarrow> AbstractTest \<Rightarrow> bool" where
  "own_tests_filter this_id test = (runnable_id (aRunnable test) = this_id)"

section \<open>Events of a test (AbstractTest.ts)\<close>






definition dq :: string where
  "dq = [CHR 0x22]"

definition getStaticEvent :: "AbstractTest \<Rightarrow> bool \<times> AbstractTest" where
  "getStaticEvent this =
     (case staticEvent this of
        Some ev \<Rightarrow> (True, this\<lparr> test_state := \<lparr> state = Errored, messages = Some [static_message ev] \<rparr> \<rparr>)
      | None \<Rightarrow> (False, this))"

definition getStartEvent :: "AbstractTest \<Rightarrow> AbstractTest" where
  "getStartEvent this = this\<lparr> test_state := \<lparr> state = Running, messages = None \<rparr> \<rparr>"




section \<open>The end of a process (GoogleTestRunnable.ts, \<open>_handleProcess\<close>)\<close>

text \<open>
  \<open>RunningRunnable\<close> and \<open>ProcessResult\<close> are declared outside the files at hand; the
  handler reads the fields below. \<open>result_error\<close> is the message of \<open>result.error\<close>
  (\<open>None\<close> when the process result carries no error).
\<close>

record RunningRunnable =
  isCancellationRequested :: bool
  timeout :: "nat option"
  childrenToRun :: "AbstractTest list"

record ProcessResult =
  result_error :: "string option"

text \<open>
  The parse state \<open>data\<close> of one process. The route of ancestor groups is kept apart
  (see the section on group events).
\<close>

record ProcessData =
  stdoutAndErrBuffer :: string
  currentTestCaseNameFull :: "string option"
  currentChild :: "AbstractTest option"
  unprocessedTestCases :: "string list"
  processedTestCases :: "AbstractTest list"


definition isTestRemoved :: "RunningRunnable \<Rightarrow> ProcessResult \<Rightarrow> ProcessData \<Rightarrow> bool" where
  "isTestRemoved runInfo result data =
     (timeout runInfo = None \<and> \<not> isCancellationRequested runInfo \<and> result_error result = None
      \<and> length (processedTestCases data) < length (childrenToRun runInfo))"

text \<open>Whether the handler calls \<open>this.reloadTests\<close>.\<close>

definition reload_called :: "RunningRunnable \<Rightarrow> ProcessResult \<Rightarrow> ProcessData \<Rightarrow> bool" where
  "reload_called runInfo result data =
     (length (unprocessedTestCases data) > 0 \<or> isTestRemoved runInfo result data)"

subsection \<open>The same step of the doctest runnable (src/unnamed, \<open>_handleProcess\<close>)\<close>

text \<open>
  The handler of \<open>DOCRunnable\<close> takes the event from the test and sends it. It is written
  for methods that take the id of the test run and return the event, an
  \<open>AbstractTestEvent\<close> with the fields \<open>state\<close> and \<open>message\<close> that the handler assigns.
  AbstractTest.ts at hand declares neither that type nor methods of that shape, so the
  three methods are the parameters \<open>cancelledEvent\<close>, \<open>timeoutEvent\<close> and
  \<open>failedEventBase\<close>, and an event is a record with these two fields and whatever else it
  holds.
\<close>

record AbstractTestEvent =
  event_state :: string
  event_message :: string






section \<open>Splitting a selection into batches (AbstractRunnable.ts)\<close>

subsection \<open>\<open>_splitTestsToSmallEnoughSubsets\<close>\<close>

text \<open>
  The loop keeps \<open>lastSet\<close>, which is always the array pushed last onto \<open>subsets\<close> (the
  two names alias one array), and \<open>charCount\<close>, which is never reset. One iteration is
  \<open>split_step\<close>; the state is the pair \<open>(subsets, charCount)\<close>.
\<close>

definition limit :: nat where
  "limit = 30000"

definition split_step :: "AbstractTest list list \<times> nat \<Rightarrow> AbstractTest \<Rightarrow> AbstractTest list list \<times> nat" where
  "split_step s test =
     (let subsets = fst s; charCount = snd s;
          subsets1 = (if charCount + length (testNameAsId test) \<ge> limit then subsets @ [[]] else subsets)
      in (butlast subsets1 @ [last subsets1 @ [test]], charCount + length (testNameAsId test)))"

definition splitTestsToSmallEnoughSubsets :: "AbstractTest list \<Rightarrow> AbstractTest list list" where
  "splitTestsToSmallEnoughSubsets tests = fst (foldl split_step ([[]], 0) tests)"

subsection \<open>\<open>_splitTestSetForMultirunIfEnabled\<close>\<close>

text \<open>
  \<open>Math.round (a / b)\<close> for natural numbers \<open>a\<close> and \<open>b > 0\<close>: the nearest integer, a half
  rounded up. (The quotient is a double; the integer formula agrees with it for every
  count of tests a process can hold.)
\<close>

definition round_div :: "nat \<Rightarrow> nat \<Rightarrow> nat" where
  "round_div a b = (2 * a + b) div (2 * b)"

text \<open>The second loop: \<open>buckets[i % buckets.length].push(tests[i])\<close>.\<close>

definition push_round_robin :: "AbstractTest list \<Rightarrow> AbstractTest list list \<Rightarrow> nat \<Rightarrow> AbstractTest list list" where
  "push_round_robin tests buckets i =
     buckets[i mod length buckets := (buckets ! (i mod length buckets)) @ [tests ! i]]"

definition targetTaskCount :: "nat \<Rightarrow> nat \<Rightarrow> nat \<Rightarrow> nat" where
  "targetTaskCount parallelizationLimit tests_size n =
     (let testPerTask = max 1 (round_div tests_size parallelizationLimit)
      in min n (max 1 (round_div n testPerTask)))"

text \<open>
  \<open>parallelizationLimit\<close> is \<open>properties.parallelizationPool.maxTaskCount\<close> and
  \<open>tests_size\<close> is \<open>this.tests.size\<close>, the number of all tests of the executable.
\<close>

definition splitTestSetForMultirunIfEnabled ::
  "nat \<Rightarrow> nat \<Rightarrow> AbstractTest list \<Rightarrow> AbstractTest list list" where
  "splitTestSetForMultirunIfEnabled parallelizationLimit tests_size tests =
     (if parallelizationLimit > 1
      then foldl (push_round_robin tests)
             (replicate (targetTaskCount parallelizationLimit tests_size (length tests)) [])
             [0 ..< length tests]
      else [tests])"

section \<open>Auxiliary tasks and the start of a run (AbstractRunnable.ts)\<close>

text \<open>Decimal text of an integer, as string interpolation prints an exit code.\<close>

fun show_nat :: "nat \<Rightarrow> string" where
  "show_nat n =
     (if n < 10 then [char_of (48 + n)]
      else show_nat (n div 10) @ [char_of (48 + n mod 10)])"

definition show_int :: "int \<Rightarrow> string" where
  "show_int i = (if i < 0 then ''-'' @ show_nat (nat (- i)) else show_nat (nat i))"

definition bq :: string where
  "bq = [CHR 0x60]"

definition glyph_flash :: string where
  "glyph_flash = [CHR 0xE2, CHR 0x9A, CHR 0xA1, CHR 0xEF, CHR 0xB8, CHR 0x8F]"

definition setting_name :: "string \<Rightarrow> string" where
  "setting_name type_name = bq @ ''testMate.test.advancedExecutables:runTask.'' @ type_name @ bq"

text \<open>
  \<open>runTasks\<close>: the tasks run in order; each yields an exit code or \<open>undefined\<close>
  (\<open>None\<close>). The first exit code other than 0 raises, and the \<open>catch\<close> around the loop
  raises the error whose message is returned on the left.
\<close>

fun runTasks_loop :: "string \<Rightarrow> (string \<times> int option) list \<Rightarrow> string + unit" where
  "runTasks_loop type_name [] = Inr ()"
| "runTasks_loop type_name ((taskName, None) # rest) = runTasks_loop type_name rest"
| "runTasks_loop type_name ((taskName, Some exitCode) # rest) =
     (if exitCode \<noteq> 0
      then Inl (''Task '' @ dq @ taskName @ dq @ '' has returned with exitCode('' @ show_int exitCode
                @ '') != 0. ('' @ setting_name type_name @ '')'')
      else runTasks_loop type_name rest)"

definition runTasks :: "string \<Rightarrow> (string \<times> int option) list \<Rightarrow> string + unit" where
  "runTasks type_name tasks =
     (case runTasks_loop type_name tasks of
        Inl e \<Rightarrow> Inl (''One of the tasks of the '' @ setting_name type_name @ '' array has failed: ''
                      @ ''Error: '' @ e)
      | Inr u \<Rightarrow> Inr u)"

text \<open>The \<open>TestEvent\<close> that \<open>sentStaticErrorEvent\<close> builds.\<close>

record TestEvent =
  te_type :: string
  te_test :: string
  te_state :: string
  te_message :: string

text \<open>
  \<open>sendStaticEvents\<close> does not read its parameter \<open>staticEvent\<close>: it calls
  \<open>getStaticEvent\<close> on every test, which notifies only for a test that has a static
  event of its own. The result is the list of notifications.
\<close>

definition sendStaticEvents :: "AbstractTest list \<Rightarrow> TestEvent option \<Rightarrow> AbstractTest list" where
  "sendStaticEvents children staticEvent_param =
     map snd (filter fst (map getStaticEvent children))"

text \<open>\<open>sentStaticErrorEvent\<close> for an \<open>Error\<close> with the message \<open>err\<close>.\<close>

definition sentStaticErrorEvent :: "AbstractTest list \<Rightarrow> string \<Rightarrow> AbstractTest list" where
  "sentStaticErrorEvent children err =
     sendStaticEvents children
       (Some \<lparr> te_type = ''test'', te_test = ''will be filled automatically'',
                te_state = ''errored'', te_message = glyph_flash @ '' Error: '' @ err \<rparr>)"

text \<open>
  \<open>_runInner\<close>: \<open>getStaticEvent\<close> is called twice on every test; the tests without a
  static event go to the process. The result is the notifications sent and the tests
  handed to the spawned process, \<open>None\<close> when no process is spawned.
\<close>

definition runInner :: "bool \<Rightarrow> AbstractTest list \<Rightarrow> AbstractTest list \<times> AbstractTest list option" where
  "runInner cancelled children =
     (let sent = concat (map (\<lambda>t. map snd (filter fst
                    [getStaticEvent t, getStaticEvent (snd (getStaticEvent t))])) children);
          runnableDescendant = filter (\<lambda>t. \<not> fst (getStaticEvent t)) children
      in (sent,
          if length runnableDescendant = 0 then None
          else if cancelled then None
          else Some runnableDescendant))"

text \<open>
  \<open>run\<close>, up to the spawning of the processes: the notifications sent and the test
  lists of the processes spawned (the buckets run side by side, so the order between
  buckets is one of many). \<open>selection_before\<close> and \<open>selection_after\<close> are what
  \<open>collectChildrenToRun()\<close> returns before and after the reload of the test list.
\<close>

record RunResult =
  notified :: "AbstractTest list"
  spawned :: "AbstractTest list list"

definition run ::
  "(string \<times> int option) list \<Rightarrow> nat \<Rightarrow> nat \<Rightarrow> bool \<Rightarrow> AbstractTest list \<Rightarrow> AbstractTest list \<Rightarrow> RunResult" where
  "run beforeEach parallelizationLimit tests_size cancelled selection_before selection_after =
     (case runTasks ''beforeEach'' beforeEach of
        Inl e \<Rightarrow> \<lparr> notified = sentStaticErrorEvent selection_before e, spawned = [] \<rparr>
      | Inr _ \<Rightarrow>
          (if length selection_after = 0 then \<lparr> notified = [], spawned = [] \<rparr>
           else
             (let buckets = splitTestSetForMultirunIfEnabled parallelizationLimit tests_size selection_after;
                  testSets = concat (map splitTestsToSmallEnoughSubsets buckets)
              in \<lparr> notified = concat (map (\<lambda>ts. fst (runInner cancelled ts)) testSets),
                   spawned = concat (map (\<lambda>ts. case snd (runInner cancelled ts) of
                                                  None \<Rightarrow> [] | Some r \<Rightarrow> [r]) testSets) \<rparr>)))"

section \<open>The test tree\<close>

text \<open>
  The ownership tree: a group owns the ordered list of its children. The back pointer
  \<open>parent\<close> of the source is the position of an item in the tree. The root group is the
  list of its children; it has no parent and is never removed. A \<open>SuiteItem\<close> carries
  label, description, tooltip and children.
\<close>

datatype TreeItem = TestItem AbstractTest | SuiteItem string string string "TreeItem list"

fun item_tests :: "TreeItem \<Rightarrow> AbstractTest list" where
  "item_tests (TestItem t) = [t]"
| "item_tests (SuiteItem l d tt cs) = concat (map item_tests cs)"

definition tree_tests :: "TreeItem list \<Rightarrow> AbstractTest list" where
  "tree_tests cs = concat (map item_tests cs)"

text \<open>The groups of a tree that have no child.\<close>

fun empty_suites :: "TreeItem \<Rightarrow> TreeItem list" where
  "empty_suites (TestItem t) = []"
| "empty_suites (SuiteItem l d tt cs) =
     (if cs = [] then [SuiteItem l d tt []] else concat (map empty_suites cs))"

definition tree_empty_suites :: "TreeItem list \<Rightarrow> TreeItem list" where
  "tree_empty_suites cs = concat (map empty_suites cs)"

subsection \<open>Group creation\<close>

text \<open>
  Modelled from the spec: \<open>Suite.compare\<close> (src/Suite.ts is not among the files), by
  "returns the existing child if one matches by (label, description)".
\<close>

definition suite_compare :: "string \<Rightarrow> string \<Rightarrow> TreeItem \<Rightarrow> bool" where
  "suite_compare lbl description v =
     (case v of TestItem t \<Rightarrow> False | SuiteItem l d tt cs \<Rightarrow> l = lbl \<and> d = description)"

text \<open>
  Modelled from the spec: \<open>Suite.addSuite\<close> (src/Suite.ts is not among the files), by
  "else creates and appends"; it returns the child it added.
\<close>

definition addSuite :: "TreeItem \<Rightarrow> TreeItem list \<Rightarrow> TreeItem list" where
  "addSuite child group_children = group_children @ [child]"

text \<open>
  \<open>_getOrCreateChildSuite\<close>: the group returned and the children of \<open>group\<close> afterwards.
  The condition \<open>cond\<close> of the source is \<open>v.type === 'suite' && v.compare(label,
  description)\<close>.
\<close>

definition getOrCreateChildSuite ::
  "string \<Rightarrow> string \<Rightarrow> string \<Rightarrow> TreeItem list \<Rightarrow> TreeItem \<times> TreeItem list" where
  "getOrCreateChildSuite lbl description tooltip group_children =
     (case find (suite_compare lbl description) group_children of
        Some found \<Rightarrow> (found, group_children)
      | None \<Rightarrow>
          (let newG = SuiteItem lbl description tooltip []
           in (newG, addSuite newG group_children)))"

text \<open>The (label, description) pairs of the sub-groups among the children of a group.\<close>

fun suite_keys :: "TreeItem list \<Rightarrow> (string \<times> string) list" where
  "suite_keys [] = []"
| "suite_keys (TestItem t # rest) = suite_keys rest"
| "suite_keys (SuiteItem l d tt cs # rest) = (l, d) # suite_keys rest"

subsection \<open>Removal\<close>

text \<open>
  Modelled from the spec: \<open>Suite.removeIfLeaf\<close> (src/Suite.ts is not among the files), by
  "A Group with zero children after a removal is itself removed (leaf-pruning),
  propagating upward". The result is what the parent keeps of the group: nothing when
  the group has no child left. The propagation upward is the return of \<open>remove_in\<close>
  through the enclosing groups.
\<close>

fun removeIfLeaf :: "TreeItem \<Rightarrow> TreeItem list" where
  "removeIfLeaf (SuiteItem l d tt cs) = (if cs = [] then [] else [SuiteItem l d tt cs])"
| "removeIfLeaf (TestItem t) = [TestItem t]"

text \<open>
  \<open>removeWithLeafAscendants\<close> of the test with the id \<open>tid\<close>. \<open>remove_in\<close> looks the test
  up among the children \<open>cs\<close> of a group and below: \<open>None\<close> when it is not there, else the
  children after \<open>splice\<close> and \<open>removeIfLeaf\<close> of the parent.
\<close>

fun remove_in :: "nat \<Rightarrow> TreeItem list \<Rightarrow> TreeItem list option" where
  "remove_in tid [] = None"
| "remove_in tid (TestItem t # rest) =
     (if item_id t = tid then Some rest
      else map_option ((#) (TestItem t)) (remove_in tid rest))"
| "remove_in tid (SuiteItem l d tt cs # rest) =
     (case remove_in tid cs of
        Some cs' \<Rightarrow> Some (removeIfLeaf (SuiteItem l d tt cs') @ rest)
      | None \<Rightarrow> map_option ((#) (SuiteItem l d tt cs)) (remove_in tid rest))"

text \<open>
  On the root's children. A test that is in no group any more is left alone (the source
  logs "Removing an already removed one").
\<close>

definition removeWithLeafAscendants :: "nat \<Rightarrow> TreeItem list \<Rightarrow> TreeItem list" where
  "removeWithLeafAscendants tid root_cs =
     (case remove_in tid root_cs of None \<Rightarrow> root_cs | Some cs' \<Rightarrow> cs')"

section \<open>Reloading the test list (AbstractRunnable.ts, \<open>reloadTests\<close>)\<close>

text \<open>
  The state of one runnable: \<open>_lastReloadTime\<close>, the set \<open>_tests\<close> (the ids of its tests,
  in insertion order) and the children of the root group.
\<close>

record RunnableState =
  lastReloadTime :: "nat option"
  known_tests :: "nat list"
  root_children :: "TreeItem list"

record RunnableReloadResult =
  result_tests :: "nat list"
  changedAny :: bool

datatype ReloadOutcome = NotScheduled | SkippedDueToMtime | Reloaded | ReloadRejected

definition remove_known_test :: "RunnableState \<Rightarrow> nat \<Rightarrow> RunnableState" where
  "remove_known_test st t =
     st\<lparr> root_children := removeWithLeafAscendants t (root_children st),
         known_tests := removeAll t (known_tests st) \<rparr>"

text \<open>
  \<open>reloadTests\<close>. \<open>lastModiTime\<close> is what \<open>_getModiTime()\<close> answers (\<open>None\<close> when the file
  cannot be read). \<open>reloadChildren\<close> is the abstract method \<open>_reloadChildren\<close> of the
  framework at hand: it returns the reload result, or rejects (left), and the state it
  leaves. The outcome says whether the task reached the task pool and what it did.
\<close>

definition reloadTests ::
  "bool \<Rightarrow> nat option \<Rightarrow> (RunnableState \<Rightarrow> (string + RunnableReloadResult) \<times> RunnableState)
     \<Rightarrow> RunnableState \<Rightarrow> ReloadOutcome \<times> RunnableState" where
  "reloadTests cancellationFlag lastModiTime reloadChildren st =
     (if cancellationFlag then (NotScheduled, st)
      else if lastReloadTime st = None \<or> lastModiTime = None \<or> lastReloadTime st \<noteq> lastModiTime
      then
        (case reloadChildren (st\<lparr> lastReloadTime := lastModiTime \<rparr>) of
           (Inl err, st2) \<Rightarrow> (ReloadRejected, st2)
         | (Inr reloadResult, st2) \<Rightarrow>
             (let toRemove = filter (\<lambda>t. indexOf (result_tests reloadResult) t = -1) (known_tests st2)
              in if length toRemove > 0 \<or> changedAny reloadResult
                 then (Reloaded, foldl remove_known_test st2 toRemove)
                 else (Reloaded, st2)))
      else (SkippedDueToMtime, st))"

text \<open>
  The last step of the \<open>then\<close> handler of \<open>_handleProcess\<close>: the call of \<open>reloadTests\<close>
  with the run's cancellation token, when it is made.
\<close>

definition rediscovery_on_exit ::
  "RunningRunnable \<Rightarrow> ProcessResult \<Rightarrow> ProcessData \<Rightarrow> nat option
     \<Rightarrow> (RunnableState \<Rightarrow> (string + RunnableReloadResult) \<times> RunnableState)
     \<Rightarrow> RunnableState \<Rightarrow> (ReloadOutcome \<times> RunnableState) option" where
  "rediscovery_on_exit runInfo result data lastModiTime reloadChildren st =
     (if reload_called runInfo result data
      then Some (reloadTests (isCancellationRequested runInfo) lastModiTime reloadChildren st)
      else None)"

text \<open>Whether a reload was put on the task pool at the end of the process.\<close>

definition rediscovery_scheduled ::
  "RunningRunnable \<Rightarrow> ProcessResult \<Rightarrow> ProcessData \<Rightarrow> nat option
     \<Rightarrow> (RunnableState \<Rightarrow> (string + RunnableReloadResult) \<times> RunnableState)
     \<Rightarrow> RunnableState \<Rightarrow> bool" where
  "rediscovery_scheduled runInfo result data lastModiTime reloadChildren st =
     (case rediscovery_on_exit runInfo result data lastModiTime reloadChildren st of
        None \<Rightarrow> False
      | Some r \<Rightarrow> fst r \<noteq> NotScheduled)"

section \<open>Group events (AbstractTest.ts \<open>route\<close>, AbstractRunnable.ts \<open>sendMinimalEventsIfNeeded\<close>)\<close>

text \<open>
  For the route of a test a group is seen from below: its id and its \<open>parent\<close>
  (\<open>None\<close> for the root). \<open>suite_route p\<close> is what the generator \<open>route()\<close> yields for a
  test whose \<open>parent\<close> is \<open>p\<close>: the parent first, the root last.
\<close>

datatype Suite = Suite nat "Suite option"

fun suite_route :: "Suite \<Rightarrow> Suite list" where
  "suite_route (Suite i None) = [Suite i None]"
| "suite_route (Suite i (Some p)) = Suite i (Some p) # suite_route p"

text \<open>The field \<open>parent\<close> of a test is the parameter \<open>parent_of\<close>.\<close>

definition route :: "(AbstractTest \<Rightarrow> Suite) \<Rightarrow> AbstractTest \<Rightarrow> Suite list" where
  "route parent_of this = suite_route (parent_of this)"

fun parent :: "Suite \<Rightarrow> Suite option" where
  "parent (Suite i p) = p"

text \<open>
  What the parser sends: the running event or the completed event of a group, or the
  start of a test.
\<close>

datatype Notification = SuiteRunning Suite | SuiteCompleted Suite | TestStarted AbstractTest

text \<open>
  The two methods of a group. The root is a \<open>RootSuite\<close>, the only group made without a
  parent, and RootSuite.ts overrides both methods with an empty body ("do nothing,
  special handling"): the root sends nothing. For a group below the root the methods of
  \<open>Suite\<close> run (src/Suite.ts, not among the files); \<open>SuiteRunning\<close> and \<open>SuiteCompleted\<close>
  stand for these calls.
\<close>

fun sendRunningEventIfNeeded :: "Suite \<Rightarrow> Notification list" where
  "sendRunningEventIfNeeded (Suite i None) = []"
| "sendRunningEventIfNeeded (Suite i (Some p)) = [SuiteRunning (Suite i (Some p))]"

fun sendCompletedEventIfNeeded :: "Suite \<Rightarrow> Notification list" where
  "sendCompletedEventIfNeeded (Suite i None) = []"
| "sendCompletedEventIfNeeded (Suite i (Some p)) = [SuiteCompleted (Suite i (Some p))]"

text \<open>
  Modelled from the spec: \<open>reverse\<close> of src/Util.ts (not among the files), which calls the
  function on the elements of the array from the last to the first, by "all
  newly-entered ancestors before the leaf's started-event" in nesting order.
\<close>

definition reverse :: "'a list \<Rightarrow> ('a \<Rightarrow> 'b) \<Rightarrow> 'b list" where
  "reverse array func = map func (rev array)"

text \<open>
  The \<open>do ... while\<close> loop of \<open>sendMinimalEventsIfNeeded\<close>, entered with
  \<open>completedIndex\<close> already incremented; \<open>completed[completedIndex]\<close> past the end is
  \<open>undefined\<close>, which \<open>indexOf\<close> does not find.
\<close>

function scan_completed :: "Suite list \<Rightarrow> Suite list \<Rightarrow> nat \<Rightarrow> nat \<times> int" where
  "scan_completed completed running completedIndex =
     (let runningIndex = (if completedIndex < length completed
                          then indexOf running (completed ! completedIndex) else -1)
      in if completedIndex < length completed \<and> runningIndex = -1
         then scan_completed completed running (completedIndex + 1)
         else (completedIndex, runningIndex))"
  by pat_completeness auto
termination
  by (relation "measure (\<lambda>(completed, running, completedIndex). length completed - completedIndex)") auto

declare scan_completed.simps [simp del]

text \<open>\<open>for (let i = runningIndex - 1; i >= 0; --i) running[i]...\<close>\<close>

definition down_from :: "int \<Rightarrow> 'a list \<Rightarrow> 'a list" where
  "down_from runningIndex running = (if runningIndex - 1 \<ge> 0 then rev (take (nat runningIndex) running) else [])"

definition sendMinimalEventsIfNeeded :: "Suite list \<Rightarrow> Suite list \<Rightarrow> Notification list" where
  "sendMinimalEventsIfNeeded completed running =
     (if length completed = 0 then concat (reverse running sendRunningEventIfNeeded)
      else if length running = 0 then concat (map sendCompletedEventIfNeeded completed)
      else if completed ! 0 = running ! 0 then []
      else
        (let r = scan_completed completed running 0;
             completedIndex = fst r; runningIndex = snd r
         in concat (map sendCompletedEventIfNeeded (take completedIndex completed))
            @ concat (map sendRunningEventIfNeeded (down_from runningIndex running))))"

text \<open>
  \<open>_handleProcess\<close>, a test case begins and its test is found: the notifications sent
  and the new \<open>data.route\<close>.
\<close>

definition test_case_begins ::
  "(AbstractTest \<Rightarrow> Suite) \<Rightarrow> Suite list \<Rightarrow> AbstractTest \<Rightarrow> Notification list \<times> Suite list" where
  "test_case_begins parent_of data_route test =
     (let new_route = route parent_of test
      in (sendMinimalEventsIfNeeded data_route new_route @ [TestStarted (getStartEvent test)], new_route))"

text \<open>After the output has ended: \<open>sendMinimalEventsIfNeeded(testRunId, data.route, [])\<close>.\<close>

definition stream_ends :: "Suite list \<Rightarrow> Notification list \<times> Suite list" where
  "stream_ends data_route = (sendMinimalEventsIfNeeded data_route [], [])"

section \<open>Discovery of doctest tests (\<open>DOCTest\<close> and \<open>DOCRunnable\<close>, src/unnamed)\<close>

subsection \<open>\<open>_updateBase\<close> (AbstractTest.ts)\<close>

text \<open>
  \<open>_updateBase\<close> raises for a negative line, before it changes anything. Otherwise every
  field that differs from the new value is assigned and \<open>changed\<close> is set; \<open>_tags\<close> is
  assigned when the lengths differ or a new tag is not among the old ones.
  \<open>path_normalize\<close> is \<open>path.normalize\<close> of the runtime.
\<close>

definition updateBase ::
  "(string \<Rightarrow> string) \<Rightarrow> string \<Rightarrow> string option \<Rightarrow> int option \<Rightarrow> bool \<Rightarrow> string list
     \<Rightarrow> string option \<Rightarrow> string option \<Rightarrow> string option \<Rightarrow> StaticTestEventBase option
     \<Rightarrow> AbstractTest \<Rightarrow> string + bool \<times> AbstractTest" where
  "updateBase path_normalize lbl fl ln skp tgs descr tparam vparam sEvent this =
     (if (case ln of None \<Rightarrow> False | Some l \<Rightarrow> l \<noteq> 0 \<and> l < 0)
      then Inl ''line smaller than zero''
      else
        (let newFile = (case fl of None \<Rightarrow> None
                        | Some f \<Rightarrow> if f = [] then None else Some (path_normalize f));
             tags_differ = (length tgs \<noteq> length (tags this)
                            \<or> list_ex (\<lambda>t. indexOf (tags this) t = -1) tgs);
             changed = (label this \<noteq> lbl \<or> src_file this \<noteq> newFile \<or> src_line this \<noteq> ln
                        \<or> own_skipped this \<noteq> skp \<or> testDescription this \<noteq> descr
                        \<or> tags_differ \<or> typeParam this \<noteq> tparam \<or> valueParam this \<noteq> vparam
                        \<or> staticEvent this \<noteq> sEvent)
         in Inr (changed,
                 this\<lparr> label := lbl, src_file := newFile, src_line := ln, own_skipped := skp,
                       testDescription := descr,
                       tags := (if tags_differ then tgs else tags this),
                       typeParam := tparam, valueParam := vparam, staticEvent := sEvent \<rparr>)))"

subsection \<open>\<open>DOCTest\<close>\<close>

text \<open>One \<open>TestCase\<close> of the list output, as \<open>_reloadFromString\<close> reads it: the name, the
  resolved file path, the line (already less one), the skip flag and the test suite.\<close>

record TestCaseEntry =
  tc_name :: string
  tc_filePath :: "string option"
  tc_line :: "int option"
  tc_skipped :: bool
  tc_testsuite :: "string option"

definition tc_tags :: "TestCaseEntry \<Rightarrow> string list" where
  "tc_tags e = (case tc_testsuite e of Some suite \<Rightarrow> [suite] | None \<Rightarrow> [])"

definition glyph_scenario :: string where
  "glyph_scenario = [CHR 0xE2, CHR 0x92, CHR 0xAE]"

definition doc_label :: "string \<Rightarrow> string" where
  "doc_label name =
     (if take 11 name = ''  Scenario:'' then glyph_scenario @ drop 11 name
      else name)"

text \<open>The fields of a test object before the constructor's \<open>_updateBase\<close>.\<close>

definition blank_test :: "Runnable \<Rightarrow> nat \<Rightarrow> string \<Rightarrow> AbstractTest" where
  "blank_test runnable new_id name =
     \<lparr> item_id = new_id, testNameAsId = name, label = [], src_file = None, src_line = None,
       own_skipped = False, tags = [], testDescription = None, typeParam = None,
       valueParam = None, staticEvent = None,
       test_state = \<lparr> state = Unset, messages = None \<rparr>, aRunnable = runnable,
       test_class = FrameworkTest \<rparr>"

text \<open>\<open>new DOCTest(shared, runnable, parent, testNameAsId, skipped, file, line, tags)\<close>\<close>

definition new_DOCTest ::
  "(string \<Rightarrow> string) \<Rightarrow> Runnable \<Rightarrow> nat \<Rightarrow> string \<Rightarrow> bool \<Rightarrow> string option \<Rightarrow> int option
     \<Rightarrow> string list \<Rightarrow> string + AbstractTest" where
  "new_DOCTest path_normalize runnable new_id name skp fl ln tgs =
     (case updateBase path_normalize (doc_label name) fl ln skp tgs None None None None
             (blank_test runnable new_id name) of
        Inl err \<Rightarrow> Inl err
      | Inr r \<Rightarrow> Inr ((snd r)\<lparr> test_state :=
                  \<lparr> state = (if skp then Skipped else Unset), messages = None \<rparr> \<rparr>))"

text \<open>\<open>DOCTest.update(file, line, tags, skipped)\<close>\<close>

definition DOCTest_update ::
  "(string \<Rightarrow> string) \<Rightarrow> string option \<Rightarrow> int option \<Rightarrow> string list \<Rightarrow> bool
     \<Rightarrow> AbstractTest \<Rightarrow> string + bool \<times> AbstractTest" where
  "DOCTest_update path_normalize fl ln tgs skp this =
     updateBase path_normalize (label this) fl ln skp tgs (testDescription this) (typeParam this)
       (valueParam this) (staticEvent this) this"

text \<open>
  The update that \<open>_reloadFromString\<close> hands to \<open>_createSubtreeAndAddTest\<close>:
  \<open>(old as DOCTest).update(filePath, line, tags, skipped)\<close>. The cast checks nothing; on
  an object of the class of \<open>_createError\<close>, which has no method \<open>update\<close>, the call raises
  a \<open>TypeError\<close>.
\<close>

definition DOC_updateTest ::
  "(string \<Rightarrow> string) \<Rightarrow> string option \<Rightarrow> int option \<Rightarrow> string list \<Rightarrow> bool
     \<Rightarrow> AbstractTest \<Rightarrow> string + bool \<times> AbstractTest" where
  "DOC_updateTest path_normalize fl ln tgs skp old =
     (case test_class old of
        FrameworkTest \<Rightarrow> DOCTest_update path_normalize fl ln tgs skp old
      | ErrorTest \<Rightarrow> Inl ''old.update is not a function'')"

text \<open>
  \<open>compare\<close>, on an item of the tree (\<open>t instanceof AbstractTest && t.compare(...)\<close>):
  \<open>DOCTest.compare\<close> is the equality of the names; the \<open>compare\<close> of the class of
  \<open>_createError\<close> is \<open>testNameAsId === testNameAsId\<close> on its own parameter, true for every
  name.
\<close>

definition test_compare :: "string \<Rightarrow> TreeItem \<Rightarrow> bool" where
  "test_compare name v =
     (case v of
        TestItem t \<Rightarrow> (case test_class t of
                         FrameworkTest \<Rightarrow> testNameAsId t = name
                       | ErrorTest \<Rightarrow> name = name)
      | SuiteItem l d tt cs \<Rightarrow> False)"

text \<open>
  \<open>_createError(title, message)\<close>: the test it constructs, with the id \<open>new_id\<close> and a new
  static event object \<open>new_object\<close>. It has no file and no line, so \<open>_updateBase\<close> does not
  raise.
\<close>

definition createError ::
  "(string \<Rightarrow> string) \<Rightarrow> Runnable \<Rightarrow> nat \<Rightarrow> nat \<Rightarrow> string \<Rightarrow> string \<Rightarrow> string + AbstractTest" where
  "createError path_normalize runnable new_id new_object title message =
     (case updateBase path_normalize title None None True []
             (Some (glyph_flash @ '' Run me for details '' @ glyph_flash)) None None
             (Some \<lparr> static_object = new_object, static_state = Errored, static_message = message \<rparr>)
             ((blank_test runnable new_id title)\<lparr> test_class := ErrorTest \<rparr>) of
        Inl err \<Rightarrow> Inl err
      | Inr r \<Rightarrow> Inr ((snd r)\<lparr> test_state := \<lparr> state = Skipped, messages = None \<rparr> \<rparr>))"

subsection \<open>\<open>_createSubtreeAndAddTest\<close> (AbstractRunnable.ts)\<close>

text \<open>
  The source changes the object it found in place; the model puts the changed object
  where the first match was.
\<close>

fun replace_first :: "('a \<Rightarrow> bool) \<Rightarrow> 'a \<Rightarrow> 'a list \<Rightarrow> 'a list" where
  "replace_first P y [] = []"
| "replace_first P y (x # xs) = (if P x then y # xs else x # replace_first P y xs)"

fun suite_children :: "TreeItem \<Rightarrow> TreeItem list" where
  "suite_children (SuiteItem l d tt cs) = cs"
| "suite_children (TestItem t) = []"

fun with_children :: "TreeItem \<Rightarrow> TreeItem list \<Rightarrow> TreeItem" where
  "with_children (SuiteItem l d tt cs) cs' = SuiteItem l d tt cs'"
| "with_children (TestItem t) cs' = TestItem t"

text \<open>
  Modelled from the spec: \<open>Suite.addTest\<close> (src/Suite.ts is not among the files), by
  "ordered collection of child Groups/TestNodes (insertion order significant)": the
  test is appended.
\<close>

definition addTest :: "AbstractTest \<Rightarrow> TreeItem list \<Rightarrow> TreeItem list" where
  "addTest test group_children = group_children @ [TestItem test]"

text \<open>
  The walk along the grouping rules resolves, for one test, a list of (label,
  description, tooltip), one for each call of \<open>_resolveAndGetOrCreateChildSuite\<close>; the
  rules and the templating read the test's name, file and tags and the configuration,
  never the tree. That list is \<open>path\<close>. \<open>createTest\<close> is what the constructor gives (or
  raises), \<open>updateTest\<close> the update of the test found. The result is the children of the
  group the walk started from, and the error raised or the test with the flags
  \<open>changed\<close> and \<open>created\<close> (a created test is added to \<open>_tests\<close>).
\<close>

fun createSubtreeAndAddTest ::
  "(string \<times> string \<times> string) list \<Rightarrow> string \<Rightarrow> (string + AbstractTest)
     \<Rightarrow> (AbstractTest \<Rightarrow> string + bool \<times> AbstractTest) \<Rightarrow> TreeItem list
     \<Rightarrow> TreeItem list \<times> (string + AbstractTest \<times> bool \<times> bool)" where
  "createSubtreeAndAddTest [] name_as_id createTest updateTest group_children =
     (case find (test_compare name_as_id) group_children of
        Some (TestItem old) \<Rightarrow>
          (case updateTest old of
             Inl err \<Rightarrow> (group_children, Inl err)
           | Inr r \<Rightarrow> (replace_first (test_compare name_as_id) (TestItem (snd r)) group_children,
                       Inr (snd r, fst r, False)))
      | _ \<Rightarrow>
          (case createTest of
             Inl err \<Rightarrow> (group_children, Inl err)
           | Inr test \<Rightarrow> (addTest test group_children, Inr (test, True, True))))"
| "createSubtreeAndAddTest ((lbl, description, tooltip) # path) name_as_id createTest updateTest group_children =
     (let g = getOrCreateChildSuite lbl description tooltip group_children;
          r = createSubtreeAndAddTest path name_as_id createTest updateTest (suite_children (fst g))
      in (replace_first (suite_compare lbl description) (with_children (fst g) (fst r)) (snd g), snd r))"

subsection \<open>\<open>_reloadFromString\<close> (DOCRunnable)\<close>

text \<open>\<open>Set.prototype.add\<close> on a set kept in insertion order.\<close>

definition set_add :: "'a \<Rightarrow> 'a list \<Rightarrow> 'a list" where
  "set_add x xs = (if x \<in> set xs then xs else xs @ [x])"

text \<open>\<open>RunnableReloadResult.add\<close>\<close>

definition result_add :: "RunnableReloadResult \<Rightarrow> AbstractTest \<Rightarrow> bool \<Rightarrow> RunnableReloadResult" where
  "result_add r test changed =
     \<lparr> result_tests = set_add (item_id test) (result_tests r),
       changedAny = (changedAny r \<or> changed) \<rparr>"

text \<open>
  The loop over the test cases of the list output. \<open>cancelled_at i\<close> says whether the
  cancellation flag is up when the loop reaches test case \<open>i\<close>, and \<open>new_id i\<close> is the id
  that \<open>generateId()\<close> gives to a test constructed there. The grouping passes no tags
  for doctest.
\<close>

fun reloadFromString_loop ::
  "(string \<Rightarrow> string) \<Rightarrow> (TestCaseEntry \<Rightarrow> (string \<times> string \<times> string) list) \<Rightarrow> Runnable
     \<Rightarrow> (nat \<Rightarrow> bool) \<Rightarrow> (nat \<Rightarrow> nat) \<Rightarrow> nat \<Rightarrow> TestCaseEntry list
     \<Rightarrow> RunnableReloadResult \<Rightarrow> RunnableState
     \<Rightarrow> (string + RunnableReloadResult) \<times> RunnableState" where
  "reloadFromString_loop path_normalize grouping this cancelled_at new_id i [] reloadResult st =
     (Inr reloadResult, st)"
| "reloadFromString_loop path_normalize grouping this cancelled_at new_id i (testCase # rest) reloadResult st =
     (if cancelled_at i then (Inr reloadResult, st)
      else
        (case createSubtreeAndAddTest (grouping testCase) (tc_name testCase)
                (new_DOCTest path_normalize this (new_id i) (tc_name testCase) (tc_skipped testCase)
                   (tc_filePath testCase) (tc_line testCase) (tc_tags testCase))
                (DOC_updateTest path_normalize (tc_filePath testCase) (tc_line testCase)
                   (tc_tags testCase) (tc_skipped testCase))
                (root_children st) of
           (cs, Inl err) \<Rightarrow> (Inl err, st\<lparr> root_children := cs \<rparr>)
         | (cs, Inr (test, changed, created)) \<Rightarrow>
             reloadFromString_loop path_normalize grouping this cancelled_at new_id (i + 1) rest
               (result_add reloadResult test changed)
               (st\<lparr> root_children := cs,
                    known_tests := (if created then set_add (item_id test) (known_tests st)
                                    else known_tests st) \<rparr>)))"

text \<open>
  \<open>_reloadChildren\<close> of the doctest runnable, when the cache of test lists is off, the
  list output of the executable parses to \<open>testCases\<close>, and the executable wrote nothing
  to stderr (or \<open>ignoreTestEnumerationStdErr\<close> is set).
\<close>

definition DOC_reloadChildren ::
  "(string \<Rightarrow> string) \<Rightarrow> (TestCaseEntry \<Rightarrow> (string \<times> string \<times> string) list) \<Rightarrow> Runnable
     \<Rightarrow> (nat \<Rightarrow> bool) \<Rightarrow> (nat \<Rightarrow> nat) \<Rightarrow> TestCaseEntry list \<Rightarrow> RunnableState
     \<Rightarrow> (string + RunnableReloadResult) \<times> RunnableState" where
  "DOC_reloadChildren path_normalize grouping this cancelled_at new_id testCases st =
     reloadFromString_loop path_normalize grouping this cancelled_at new_id 0 testCases
       \<lparr> result_tests = [], changedAny = False \<rparr> st"

text \<open>
  \<open>_createAndAddError(label, message)\<close>, which \<open>_reloadChildren\<close> answers with when the
  executable wrote to stderr: the error test goes into the group of the executable,
  whose (label, description, tooltip) is \<open>exe_group\<close>; the update of a test found is
  \<open>() => false\<close>.
\<close>

definition createAndAddError ::
  "(string \<Rightarrow> string) \<Rightarrow> Runnable \<Rightarrow> nat \<Rightarrow> nat \<Rightarrow> (string \<times> string \<times> string) list
     \<Rightarrow> string \<Rightarrow> string \<Rightarrow> RunnableState \<Rightarrow> (string + RunnableReloadResult) \<times> RunnableState" where
  "createAndAddError path_normalize this new_id new_object exe_group lbl message st =
     (case createSubtreeAndAddTest exe_group lbl
             (createError path_normalize this new_id new_object lbl message)
             (\<lambda>old. Inr (False, old))
             (root_children st) of
        (cs, Inl err) \<Rightarrow> (Inl err, st\<lparr> root_children := cs \<rparr>)
      | (cs, Inr (test, changed, created)) \<Rightarrow>
          (Inr (result_add \<lparr> result_tests = [], changedAny = False \<rparr> test changed),
           st\<lparr> root_children := cs,
               known_tests := (if created then set_add (item_id test) (known_tests st)
                               else known_tests st) \<rparr>))"

subsection \<open>Where a test case lands in the tree\<close>

text \<open>
  Groups are matched by (label, description) and tests by name, the first match each
  time. \<open>lookup_test\<close> follows the same matches down the tree: it is the test that
  \<open>_createSubtreeAndAddTest\<close> would find for a path with these (label, description)
  pairs and this name.
\<close>

definition path_key :: "(string \<times> string \<times> string) list \<Rightarrow> (string \<times> string) list" where
  "path_key path = map (\<lambda>p. (fst p, fst (snd p))) path"

fun lookup_test :: "(string \<times> string) list \<Rightarrow> string \<Rightarrow> TreeItem list \<Rightarrow> AbstractTest option" where
  "lookup_test [] name cs =
     (case find (test_compare name) cs of Some (TestItem t) \<Rightarrow> Some t | _ \<Rightarrow> None)"
| "lookup_test ((l, d) # ks) name cs =
     (case find (suite_compare l d) cs of
        Some (SuiteItem l' d' tt gcs) \<Rightarrow> lookup_test ks name gcs
      | _ \<Rightarrow> None)"

definition entry_key ::
  "(TestCaseEntry \<Rightarrow> (string \<times> string \<times> string) list) \<Rightarrow> TestCaseEntry
     \<Rightarrow> (string \<times> string) list \<times> string" where
  "entry_key grouping e = (path_key (grouping e), tc_name e)"

section \<open>Measures and concrete inputs\<close>

text \<open>The cumulative \<open>testNameAsId\<close> length of a batch.\<close>

definition batch_chars :: "AbstractTest list \<Rightarrow> nat" where
  "batch_chars b = sum_list (map (\<lambda>t. length (testNameAsId t)) b)"

text \<open>A test whose only interesting part is its name, for concrete inputs.\<close>

definition mk_test :: "nat \<Rightarrow> string \<Rightarrow> AbstractTest" where
  "mk_test i n = \<lparr> item_id = i, testNameAsId = n, label = n, src_file = None, src_line = None,
     own_skipped = False, tags = [], testDescription = None, typeParam = None,
     valueParam = None, staticEvent = None,
     test_state = \<lparr> state = Unset, messages = None \<rparr>,
     aRunnable = \<lparr> runnable_id = 0, markAsSkipped = False \<rparr>, test_class = FrameworkTest \<rparr>"

text \<open>
  A list output of a doctest executable with two test cases, and the two tests that a
  reload makes of them, with the ids 10 and 11.
\<close>

definition two_test_cases :: "TestCaseEntry list" where
  "two_test_cases =
     [\<lparr> tc_name = ''adds'', tc_filePath = Some ''src/a.cpp'', tc_line = Some 9, tc_skipped = False,
        tc_testsuite = Some ''math'' \<rparr>,
      \<lparr> tc_name = ''subtracts'', tc_filePath = None, tc_line = None, tc_skipped = True,
        tc_testsuite = None \<rparr>]"

definition test_adds :: AbstractTest where
  "test_adds =
     \<lparr> item_id = 10, testNameAsId = ''adds'', label = ''adds'',
       src_file = Some ''src/a.cpp'', src_line = Some 9, own_skipped = False,
       tags = [''math''], testDescription = None, typeParam = None, valueParam = None,
       staticEvent = None, test_state = \<lparr> state = Unset, messages = None \<rparr>,
       aRunnable = \<lparr> runnable_id = 1, markAsSkipped = False \<rparr>,
       test_class = FrameworkTest \<rparr>"

definition test_subtracts :: AbstractTest where
  "test_subtracts =
     \<lparr> item_id = 11, testNameAsId = ''subtracts'', label = ''subtracts'',
       src_file = None, src_line = None, own_skipped = True,
       tags = [], testDescription = None, typeParam = None, valueParam = None,
       staticEvent = None, test_state = \<lparr> state = Skipped, messages = None \<rparr>,
       aRunnable = \<lparr> runnable_id = 1, markAsSkipped = False \<rparr>,
       test_class = FrameworkTest \<rparr>"

section \<open>Theorems\<close>

subsection \<open>Batches bounded by identity-string length\<close>

lemma split_step_inv:
  assumes "subs \<noteq> []" "batch_chars (last subs) \<le> cc"
    "\<forall>b \<in> set subs. length b \<le> 1 \<or> batch_chars b < limit"
    "split_step (subs, cc) t = (subs', cc')"
  shows "subs' \<noteq> [] \<and> batch_chars (last subs') \<le> cc'
     \<and> (\<forall>b \<in> set subs'. length b \<le> 1 \<or> batch_chars b < limit)
     \<and> concat subs' = concat subs @ [t]"
proof (cases "cc + length (testNameAsId t) \<ge> limit")
  case True
  then have s: "subs' = subs @ [[t]]" and c: "cc' = cc + length (testNameAsId t)"
    using assms(4) by (auto simp: split_step_def Let_def)
  show ?thesis using assms(3) by (auto simp: s c batch_chars_def)
next
  case False
  then have s: "subs' = butlast subs @ [last subs @ [t]]" and c: "cc' = cc + length (testNameAsId t)"
    using assms(4) by (auto simp: split_step_def Let_def)
  have in_bl: "\<And>b. b \<in> set (butlast subs) \<Longrightarrow> b \<in> set subs"
    by (rule in_set_butlastD)
  have cat: "concat subs = concat (butlast subs) @ last subs"
    using assms(1) by (metis append_butlast_last_id concat.simps concat_append append_Nil2)
  have "batch_chars (last subs @ [t]) < limit"
    using False assms(2) by (simp add: batch_chars_def)
  then show ?thesis using assms(2,3) in_bl cat
    by (auto simp: s c batch_chars_def)
qed

lemma foldl_split_step_inv:
  assumes "subs \<noteq> []" "batch_chars (last subs) \<le> cc"
    "\<forall>b \<in> set subs. length b \<le> 1 \<or> batch_chars b < limit"
  shows "fst (foldl split_step (subs, cc) ts) \<noteq> []
     \<and> (\<forall>b \<in> set (fst (foldl split_step (subs, cc) ts)). length b \<le> 1 \<or> batch_chars b < limit)
     \<and> concat (fst (foldl split_step (subs, cc) ts)) = concat subs @ ts"
  using assms
proof (induction ts arbitrary: subs cc)
  case Nil
  then show ?case by simp
next
  case (Cons t ts)
  obtain subs' cc' where st: "split_step (subs, cc) t = (subs', cc')"
    by (cases "split_step (subs, cc) t")
  from split_step_inv [OF Cons.prems st]
  have inv: "subs' \<noteq> []" "batch_chars (last subs') \<le> cc'"
    "\<forall>b \<in> set subs'. length b \<le> 1 \<or> batch_chars b < limit"
    and cat: "concat subs' = concat subs @ [t]" by auto
  from Cons.IH [OF inv] show ?case by (simp add: st cat)
qed

text \<open>
  C4, as the code has it. The batches of \<open>_splitTestsToSmallEnoughSubsets\<close>, concatenated,
  are the input list in its order, and every batch that holds more than one test has a
  cumulative \<open>testNameAsId\<close> length strictly below the limit of 30000 characters. (A batch
  of one test is as long as that test's name.)
\<close>

theorem C4_split_concat_and_bound:
  "concat (splitTestsToSmallEnoughSubsets tests) = tests
   \<and> list_all (\<lambda>b. length b \<le> 1 \<or> batch_chars b < 30000) (splitTestsToSmallEnoughSubsets tests)"
proof -
  have "[[]] \<noteq> ([] :: AbstractTest list list)" "batch_chars (last [[]]) \<le> 0"
    "\<forall>b \<in> set ([[]] :: AbstractTest list list). length b \<le> 1 \<or> batch_chars b < limit"
    by (simp_all add: batch_chars_def)
  from foldl_split_step_inv [OF this, of tests] show ?thesis
    by (simp add: splitTestsToSmallEnoughSubsets_def list_all_iff limit_def)
qed

text \<open>
  C4 as stated fails: a single test whose name has 30001 characters is put in a batch of
  its own (after an empty first batch), and that batch is longer than the limit.
\<close>

theorem C4_counterexample:
  "splitTestsToSmallEnoughSubsets [mk_test 1 (replicate 30001 CHR ''a'')]
     = [[], [mk_test 1 (replicate 30001 CHR ''a'')]]
   \<and> \<not> list_all (\<lambda>b. batch_chars b \<le> 30000)
         (splitTestsToSmallEnoughSubsets [mk_test 1 (replicate 30001 CHR ''a'')])"
  by (simp add: splitTestsToSmallEnoughSubsets_def split_step_def Let_def limit_def
      batch_chars_def mk_test_def)


subsection \<open>Selection of a leaf\<close>

lemma indexOf_ge: "indexOf xs x \<ge> -1"
  by (induction xs) (auto simp: Let_def)

lemma indexOf_minus1: "(indexOf xs x = -1) = (x \<notin> set xs)"
proof (induction xs)
  case Nil show ?case by simp
next
  case (Cons y ys)
  with indexOf_ge [of ys x] show ?case by (auto simp: Let_def)
qed

lemma indexOf_takeWhile: "x \<in> set xs \<Longrightarrow> indexOf xs x = int (length (takeWhile (\<lambda>y. y \<noteq> x) xs))"
proof (induction xs)
  case Nil then show ?case by simp
next
  case (Cons y ys)
  then show ?case by (auto simp: Let_def indexOf_minus1)
qed


text \<open>
  C10, as the code has it. \<open>collectTestToRun\<close> returns the test exactly when the caller's
  filter accepts it and either the test is listed in the requested items, skipped or
  not, or an ancestor was selected (\<open>isParentIn\<close>) and the test is not skipped; skipped
  means reported as skipped or \<open>markAsSkipped\<close> set on the runnable. Otherwise it
  returns no test.
\<close>

theorem C10_collectTestToRun:
  "collectTestToRun tests isParentIn filter_fn t =
     (if filter_fn t
         \<and> (item_id t \<in> set tests
             \<or> (isParentIn \<and> \<not> (own_skipped t \<or> markAsSkipped (aRunnable t))))
      then [t] else [])"
  by (auto simp: collectTestToRun_def skipped_def indexOf_minus1)

text \<open>
  C10 as stated fails: a test that is listed in the requested items is left out when the
  filter rejects it, as the filter of \<open>AbstractRunnable.run\<close> does for a test of another
  runnable.
\<close>

theorem C10_counterexample:
  "item_id (mk_test 7 ''Suite.A'') \<in> set [7]
   \<and> collectTestToRun [7] False (own_tests_filter 1) (mk_test 7 ''Suite.A'') = []"
  by (simp add: collectTestToRun_def own_tests_filter_def mk_test_def skipped_def)

subsection \<open>The terminal event of an open test case\<close>



subsection \<open>Re-discovery after the end of a process\<close>

text \<open>
  C2, as the code has it. After the output has ended, \<open>reloadTests\<close> is called if and only
  if orphan payloads are buffered, or there is no timeout, no cancellation and no process
  error and fewer test cases were processed than requested. The call puts a reload on
  the task pool only when cancellation is not requested: a re-discovery is scheduled if
  and only if the run is not cancelled and orphan payloads are buffered or (no timeout,
  no process error, fewer processed than requested). A cancelled run never schedules one.
\<close>

theorem C2_rediscovery:
  "reload_called runInfo result data
     = (length (unprocessedTestCases data) > 0
        \<or> (timeout runInfo = None \<and> \<not> isCancellationRequested runInfo \<and> result_error result = None
           \<and> length (processedTestCases data) < length (childrenToRun runInfo)))
   \<and> rediscovery_scheduled runInfo result data lastModiTime reloadChildren st
     = (\<not> isCancellationRequested runInfo
        \<and> (length (unprocessedTestCases data) > 0
           \<or> (timeout runInfo = None \<and> result_error result = None
              \<and> length (processedTestCases data) < length (childrenToRun runInfo))))"
  by (auto simp: rediscovery_scheduled_def rediscovery_on_exit_def reload_called_def
      isTestRemoved_def reloadTests_def Let_def split: prod.splits sum.splits)

text \<open>
  C2 as stated fails: in a cancelled run with one buffered orphan payload the condition
  of the claim holds and \<open>reloadTests\<close> is called, but no re-discovery is scheduled.
\<close>

theorem C2_counterexample:
  "reload_called
      \<lparr> isCancellationRequested = True, timeout = None, childrenToRun = [mk_test 1 ''Suite.A''] \<rparr>
      \<lparr> result_error = None \<rparr>
      \<lparr> stdoutAndErrBuffer = [], currentTestCaseNameFull = None, currentChild = None,
        unprocessedTestCases = [''[ RUN      ] Suite.B''], processedTestCases = [] \<rparr>
   \<and> \<not> rediscovery_scheduled
      \<lparr> isCancellationRequested = True, timeout = None, childrenToRun = [mk_test 1 ''Suite.A''] \<rparr>
      \<lparr> result_error = None \<rparr>
      \<lparr> stdoutAndErrBuffer = [], currentTestCaseNameFull = None, currentChild = None,
        unprocessedTestCases = [''[ RUN      ] Suite.B''], processedTestCases = [] \<rparr>
      (Some 5) (\<lambda>s. (Inr \<lparr> result_tests = [], changedAny = False \<rparr>, s))
      \<lparr> lastReloadTime = Some 4, known_tests = [], root_children = [] \<rparr>"
  by (simp add: rediscovery_scheduled_def rediscovery_on_exit_def reload_called_def reloadTests_def)

subsection \<open>Group events in nesting order\<close>

lemma scan_completed_eq:
  "scan_completed a b i =
     (let n = i + length (takeWhile (\<lambda>c. c \<notin> set b) (drop i a))
      in (n, if n < length a then indexOf b (a ! n) else -1))"
proof (induction a b i rule: scan_completed.induct)
  case (1 a b i)
  show ?case
  proof (cases "i < length a")
    case False
    then show ?thesis by (subst scan_completed.simps) simp
  next
    case True
    then have d: "drop i a = a ! i # drop (Suc i) a" by (simp add: Cons_nth_drop_Suc)
    show ?thesis
    proof (cases "indexOf b (a ! i) = -1")
      case True
      with \<open>i < length a\<close> 1 show ?thesis
        by (subst scan_completed.simps) (simp add: d indexOf_minus1 Let_def)
    next
      case False
      with \<open>i < length a\<close> show ?thesis
        by (subst scan_completed.simps) (simp add: d indexOf_minus1 Let_def)
    qed
  qed
qed

lemma suite_route_hd: "\<exists>r. suite_route s = s # r"
  by (cases s rule: suite_route.cases) auto

lemma suite_route_size: "x \<in> set (suite_route s) \<Longrightarrow> size x \<le> size s"
  by (induction s arbitrary: x rule: suite_route.induct) (auto simp: le_Suc_eq)

lemma suite_route_distinct: "distinct (suite_route s)"
proof (induction s rule: suite_route.induct)
  case (1 i) show ?case by simp
next
  case (2 i p)
  have "Suite i (Some p) \<notin> set (suite_route p)"
    using suite_route_size [of "Suite i (Some p)" p] by auto
  with 2 show ?case by simp
qed

lemma suite_route_dropWhile:
  "\<exists>y \<in> set (suite_route s). \<not> P y \<Longrightarrow>
     dropWhile P (suite_route s) = suite_route (hd (dropWhile P (suite_route s)))"
proof (induction s rule: suite_route.induct)
  case (1 i) then show ?case by simp
next
  case (2 i p) then show ?case by (cases "P (Suite i (Some p))") auto
qed

lemma sendMinimal_routes:
  assumes a: "a = [] \<or> (\<exists>p0. a = suite_route p0 \<and> last a = last (suite_route p1))"
  shows "sendMinimalEventsIfNeeded a (suite_route p1) =
      concat (map sendCompletedEventIfNeeded (filter (\<lambda>s. s \<notin> set (suite_route p1)) a))
    @ concat (map sendRunningEventIfNeeded (rev (filter (\<lambda>s. s \<notin> set a) (suite_route p1))))"
proof (cases "a = []")
  case True
  then show ?thesis by (simp add: sendMinimalEventsIfNeeded_def reverse_def rev_map)
next
  case False
  with a obtain p0 where a0: "a = suite_route p0" and root: "last a = last (suite_route p1)" by auto
  define b where "b = suite_route p1"
  obtain ra where ra: "a = p0 # ra" using suite_route_hd [of p0] a0 by auto
  obtain rb where rb: "b = p1 # rb" using suite_route_hd [of p1] b_def by auto
  show ?thesis
  proof (cases "p0 = p1")
    case True
    then have "a = b" by (simp add: a0 b_def)
    then show ?thesis using ra rb unfolding b_def [symmetric]
      by (simp add: sendMinimalEventsIfNeeded_def)
  next
    case neq: False
    define P where "P = (\<lambda>c. c \<notin> set b)"
    define Q where "Q = (\<lambda>c. c \<notin> set a)"
    have shared: "\<exists>y \<in> set a. \<not> P y"
    proof -
      have "last a \<in> set a" using ra by simp
      moreover have "last a \<in> set b" using root rb unfolding b_def [symmetric] by simp
      ultimately show ?thesis by (auto simp: P_def)
    qed
    then have dne: "dropWhile P a \<noteq> []" by (simp)
    define x where "x = hd (dropWhile P a)"
    have xnP: "\<not> P x" unfolding x_def using dne by (rule hd_dropWhile)
    then have xb: "x \<in> set b" by (simp add: P_def)
    have da: "dropWhile P a = suite_route x"
      unfolding x_def a0 using shared [unfolded a0] by (rule suite_route_dropWhile)
    have "\<exists>y \<in> set (suite_route p1). \<not> (y \<noteq> x)" using xb by (auto simp: b_def)
    from suite_route_dropWhile [OF this]
    have "dropWhile (\<lambda>y. y \<noteq> x) b = suite_route (hd (dropWhile (\<lambda>y. y \<noteq> x) b))"
      by (simp add: b_def)
    moreover have "hd (dropWhile (\<lambda>y. y \<noteq> x) b) = x"
      using xb hd_dropWhile [of "\<lambda>y. y \<noteq> x" b] by (simp)
    ultimately have db: "dropWhile (\<lambda>y. y \<noteq> x) b = suite_route x" by simp
    have ci_lt: "length (takeWhile P a) < length a"
    proof -
      have "length (takeWhile P a) + length (dropWhile P a) = length a"
        by (metis length_append takeWhile_dropWhile_id)
      with dne show ?thesis by (cases "dropWhile P a") auto
    qed
    have a_ci: "a ! length (takeWhile P a) = x"
      unfolding x_def using dne by (simp add: hd_conv_nth dropWhile_nth)
    have scan: "scan_completed a b 0 = (length (takeWhile P a), int (length (takeWhile (\<lambda>y. y \<noteq> x) b)))"
    proof -
      have "scan_completed a b 0 =
          (let n = 0 + length (takeWhile P (drop 0 a))
           in (n, if n < length a then indexOf b (a ! n) else -1))"
        unfolding P_def by (rule scan_completed_eq)
      also have "\<dots> = (length (takeWhile P a), indexOf b x)"
        using ci_lt by (simp add: Let_def a_ci)
      finally show ?thesis using xb by (simp add: indexOf_takeWhile)
    qed
    have fa: "filter P a = takeWhile P a"
    proof (rule takeWhile_eq_filter [symmetric])
      fix y assume "y \<in> set (dropWhile P a)"
      then have "y \<in> set (dropWhile (\<lambda>y. y \<noteq> x) b)" by (simp add: da db)
      then have "y \<in> set b" by (rule set_dropWhileD)
      then show "\<not> P y" by (simp add: P_def)
    qed
    have fb: "filter Q b = takeWhile (\<lambda>y. y \<noteq> x) b"
    proof -
      have disj: "set (takeWhile (\<lambda>y. y \<noteq> x) b) \<inter> set (dropWhile (\<lambda>y. y \<noteq> x) b) = {}"
        using suite_route_distinct [of p1]
        by (metis b_def distinct_append takeWhile_dropWhile_id)
      have "filter Q b = filter Q (takeWhile (\<lambda>y. y \<noteq> x) b @ dropWhile (\<lambda>y. y \<noteq> x) b)" by simp
      also have "\<dots> = filter Q (takeWhile (\<lambda>y. y \<noteq> x) b) @ filter Q (suite_route x)" by (simp add: db)
      also have "filter Q (suite_route x) = []"
      proof -
        have "y \<in> set a" if "y \<in> set (suite_route x)" for y
          using that set_dropWhileD [of y P a] by (simp add: da)
        then show ?thesis by (auto simp: filter_empty_conv Q_def)
      qed
      also have "filter Q (takeWhile (\<lambda>y. y \<noteq> x) b) = takeWhile (\<lambda>y. y \<noteq> x) b"
      proof -
        have "Q y" if y: "y \<in> set (takeWhile (\<lambda>y. y \<noteq> x) b)" for y
        proof (rule ccontr)
          assume "\<not> Q y"
          then have "y \<in> set a" by (simp add: Q_def)
          then have "y \<in> set (takeWhile P a) \<or> y \<in> set (dropWhile P a)"
            by (metis Un_iff set_append takeWhile_dropWhile_id)
          then show False
          proof
            assume "y \<in> set (takeWhile P a)"
            then have "P y" by (rule set_takeWhileD [THEN conjunct2])
            moreover have "y \<in> set b" using y by (rule set_takeWhileD [THEN conjunct1])
            ultimately show False by (simp add: P_def)
          next
            assume "y \<in> set (dropWhile P a)"
            then have "y \<in> set (dropWhile (\<lambda>y. y \<noteq> x) b)" by (simp add: da db)
            with y disj show False by auto
          qed
        qed
        then show ?thesis by (simp add: filter_id_conv)
      qed
      finally show ?thesis by simp
    qed
    have tk: "take (length (takeWhile P a)) a = takeWhile P a"
      by (simp add: takeWhile_eq_take [symmetric])
    have tkb: "take (length (takeWhile (\<lambda>y. y \<noteq> x) b)) b = takeWhile (\<lambda>y. y \<noteq> x) b"
      by (simp add: takeWhile_eq_take [symmetric])
    have "sendMinimalEventsIfNeeded a b =
        concat (map sendCompletedEventIfNeeded (take (length (takeWhile P a)) a))
      @ concat (map sendRunningEventIfNeeded (down_from (int (length (takeWhile (\<lambda>y. y \<noteq> x) b))) b))"
    proof -
      have "length a \<noteq> 0" "length b \<noteq> 0" "a ! 0 = p0" "b ! 0 = p1"
        using ra rb by simp_all
      then show ?thesis
        unfolding sendMinimalEventsIfNeeded_def using neq by (simp add: scan)
    qed
    also have "down_from (int (length (takeWhile (\<lambda>y. y \<noteq> x) b))) b = rev (takeWhile (\<lambda>y. y \<noteq> x) b)"
      unfolding down_from_def by (simp add: tkb)
    finally have "sendMinimalEventsIfNeeded a b =
        concat (map sendCompletedEventIfNeeded (filter P a))
      @ concat (map sendRunningEventIfNeeded (rev (filter Q b)))"
      by (simp add: tk fa fb)
    then show ?thesis unfolding P_def Q_def b_def .
  qed
qed


lemma sendCompleted_below_root:
  "concat (map sendCompletedEventIfNeeded xs) = map SuiteCompleted (filter (\<lambda>s. parent s \<noteq> None) xs)"
proof (induction xs)
  case Nil
  show ?case by simp
next
  case (Cons x xs)
  then show ?case by (cases x rule: sendCompletedEventIfNeeded.cases) simp_all
qed

lemma sendRunning_below_root:
  "concat (map sendRunningEventIfNeeded xs) = map SuiteRunning (filter (\<lambda>s. parent s \<noteq> None) xs)"
proof (induction xs)
  case Nil
  show ?case by simp
next
  case (Cons x xs)
  then show ?case by (cases x rule: sendRunningEventIfNeeded.cases) simp_all
qed

text \<open>
  C3, as the code has it. \<open>data_route\<close> is empty (no test case yet) or the route of the
  test before, under the same root. When a test case begins and its test is found, the
  groups below the root on the route before that are not on the new route are completed;
  then exactly the groups below the root on the new route that are not on the route
  before are running, the one nearest to the root first and the parent of the test last
  (a route lists the parent first and the root last); then the test is started. No group
  on both routes gets an event. When the output has ended, every group below the root on
  the route is completed, from the parent of the last test upwards. The root, which ends
  every route, gets neither event.
\<close>

theorem C3_group_events:
  assumes "data_route = []
     \<or> (\<exists>prev. data_route = route parent_of prev
            \<and> last (route parent_of prev) = last (route parent_of test))"
  shows "fst (test_case_begins parent_of data_route test) =
           map SuiteCompleted
             (filter (\<lambda>s. s \<notin> set (route parent_of test) \<and> parent s \<noteq> None) data_route)
         @ map SuiteRunning
             (rev (filter (\<lambda>s. s \<notin> set data_route \<and> parent s \<noteq> None) (route parent_of test)))
         @ [TestStarted (getStartEvent test)]
       \<and> snd (test_case_begins parent_of data_route test) = route parent_of test
       \<and> fst (stream_ends data_route) = map SuiteCompleted (filter (\<lambda>s. parent s \<noteq> None) data_route)"
proof -
  have "data_route = []
     \<or> (\<exists>p0. data_route = suite_route p0 \<and> last data_route = last (suite_route (parent_of test)))"
    using assms by (auto simp: route_def)
  from sendMinimal_routes [OF this]
  have "fst (test_case_begins parent_of data_route test) =
           map SuiteCompleted
             (filter (\<lambda>s. s \<notin> set (route parent_of test) \<and> parent s \<noteq> None) data_route)
         @ map SuiteRunning
             (rev (filter (\<lambda>s. s \<notin> set data_route \<and> parent s \<noteq> None) (route parent_of test)))
         @ [TestStarted (getStartEvent test)]"
    by (simp add: test_case_begins_def route_def Let_def sendCompleted_below_root
        sendRunning_below_root rev_filter conj_commute)
  moreover have "snd (test_case_begins parent_of data_route test) = route parent_of test"
    by (simp add: test_case_begins_def Let_def)
  moreover have "fst (stream_ends data_route) = map SuiteCompleted (filter (\<lambda>s. parent s \<noteq> None) data_route)"
    by (simp add: stream_ends_def sendMinimalEventsIfNeeded_def reverse_def sendCompleted_below_root)
  ultimately show ?thesis by simp
qed

text \<open>
  An instance: the test before is in group 1 under the root 0, the new test in group 3
  under group 2 under the root. Group 1 is completed, then groups 2 and 3 are running,
  then the test starts. When the output ends after the test of group 1, group 1 is
  completed.
\<close>

theorem C3_group_events_witness:
  "fst (test_case_begins
          (\<lambda>t. if item_id t = 1 then Suite 1 (Some (Suite 0 None))
                else Suite 3 (Some (Suite 2 (Some (Suite 0 None)))))
          [Suite 1 (Some (Suite 0 None)), Suite 0 None] (mk_test 2 ''B.b''))
   = [SuiteCompleted (Suite 1 (Some (Suite 0 None))),
      SuiteRunning (Suite 2 (Some (Suite 0 None))),
      SuiteRunning (Suite 3 (Some (Suite 2 (Some (Suite 0 None))))),
      TestStarted (getStartEvent (mk_test 2 ''B.b''))]
   \<and> fst (stream_ends [Suite 1 (Some (Suite 0 None)), Suite 0 None])
     = [SuiteCompleted (Suite 1 (Some (Suite 0 None)))]"
proof -
  let ?pf = "\<lambda>t. if item_id t = 1 then Suite 1 (Some (Suite 0 None))
                else Suite 3 (Some (Suite 2 (Some (Suite 0 None))))"
  have h: "[Suite 1 (Some (Suite 0 None)), Suite 0 None] = []
     \<or> (\<exists>prev. [Suite 1 (Some (Suite 0 None)), Suite 0 None] = route ?pf prev
            \<and> last (route ?pf prev) = last (route ?pf (mk_test 2 ''B.b'')))"
    by (rule disjI2, rule exI [of _ "mk_test 1 ''A.a''"]) (simp add: route_def mk_test_def)
  from C3_group_events [OF h] show ?thesis
    by (simp add: route_def mk_test_def)
qed

text \<open>
  C3 as stated fails. The first test case of a run is in group 1 under the root 0: the
  root is an ancestor on the new route and not on the route before (there is none), yet
  only group 1 is running before the test starts. And when the output ends, group 1 is
  completed and the root is not.
\<close>

theorem C3_counterexample:
  "route (\<lambda>t. Suite 1 (Some (Suite 0 None))) (mk_test 1 ''A.a'')
     = [Suite 1 (Some (Suite 0 None)), Suite 0 None]
   \<and> fst (test_case_begins (\<lambda>t. Suite 1 (Some (Suite 0 None))) [] (mk_test 1 ''A.a''))
     = [SuiteRunning (Suite 1 (Some (Suite 0 None))), TestStarted (getStartEvent (mk_test 1 ''A.a''))]
   \<and> fst (stream_ends [Suite 1 (Some (Suite 0 None)), Suite 0 None])
     = [SuiteCompleted (Suite 1 (Some (Suite 0 None)))]"
  by (simp add: route_def test_case_begins_def stream_ends_def sendMinimalEventsIfNeeded_def
      reverse_def)

subsection \<open>Round-robin buckets\<close>

lemma push_round_robin_inv:
  assumes "length bs = k" "\<forall>j<k. bs ! j = map ((!) tests) (filter (\<lambda>i. i mod k = j) [0..<m])"
  shows "length (push_round_robin tests bs m) = k
     \<and> (\<forall>j<k. push_round_robin tests bs m ! j = map ((!) tests) (filter (\<lambda>i. i mod k = j) [0..<Suc m]))"
proof (cases "k = 0")
  case True
  then show ?thesis using assms by (simp add: push_round_robin_def)
next
  case False
  then have lt: "m mod k < k" by simp
  show ?thesis using assms lt
    by (auto simp: push_round_robin_def nth_list_update)
qed

lemma foldl_push_round_robin:
  "length (foldl (push_round_robin tests) (replicate k []) [0..<m]) = k
   \<and> (\<forall>j<k. foldl (push_round_robin tests) (replicate k []) [0..<m] ! j
          = map ((!) tests) (filter (\<lambda>i. i mod k = j) [0..<m]))"
proof (induction m)
  case 0
  show ?case by simp
next
  case (Suc m)
  from push_round_robin_inv [of "foldl (push_round_robin tests) (replicate k []) [0..<m]" k tests m] Suc
  show ?case by simp
qed

lemma targetTaskCount_pos: "0 < n \<Longrightarrow> 0 < targetTaskCount l s n"
  by (simp add: targetTaskCount_def Let_def)

lemma C8_len: "1 < l \<Longrightarrow> length (splitTestSetForMultirunIfEnabled l s ts) = targetTaskCount l s (length ts)"
  using foldl_push_round_robin [of ts "targetTaskCount l s (length ts)" "length ts"]
  by (simp add: splitTestSetForMultirunIfEnabled_def)


text \<open>
  C8, as the code has it. When the parallelization limit is greater than 1, the selection
  is dealt round-robin (the test at position \<open>i\<close> goes to bucket \<open>i mod k\<close>) into
  \<open>k = min n (max 1 (round (n / max 1 (round (size / limit)))))\<close> buckets, for \<open>n\<close> tests
  selected out of \<open>size\<close> tests of the executable. For a selection without repetition the
  buckets are pairwise disjoint, and their union is the selection.
\<close>

theorem C8_round_robin:
  assumes "parallelizationLimit > 1" "distinct tests"
  shows "let buckets = splitTestSetForMultirunIfEnabled parallelizationLimit tests_size tests
         in length buckets = targetTaskCount parallelizationLimit tests_size (length tests)
          \<and> (\<forall>j < length buckets. buckets ! j
                = map ((!) tests) (filter (\<lambda>i. i mod length buckets = j) [0 ..< length tests]))
          \<and> (\<forall>j < length buckets. \<forall>j' < length buckets. j \<noteq> j' \<longrightarrow> set (buckets ! j) \<inter> set (buckets ! j') = {})
          \<and> \<Union> (set ` set buckets) = set tests"
proof -
  define k where "k = targetTaskCount parallelizationLimit tests_size (length tests)"
  define bs where "bs = splitTestSetForMultirunIfEnabled parallelizationLimit tests_size tests"
  have bs: "bs = foldl (push_round_robin tests) (replicate k []) [0..<length tests]"
    using assms(1) by (simp add: bs_def k_def splitTestSetForMultirunIfEnabled_def)
  have len: "length bs = k"
    and nth: "\<And>j. j < k \<Longrightarrow> bs ! j = map ((!) tests) (filter (\<lambda>i. i mod k = j) [0..<length tests])"
    using foldl_push_round_robin [of tests k "length tests"] by (simp_all add: bs)
  have disj: "set (bs ! j) \<inter> set (bs ! j') = {}" if "j < k" "j' < k" "j \<noteq> j'" for j j'
  proof -
    have "tests ! i \<noteq> tests ! i'" if "i < length tests" "i' < length tests" "i mod k = j" "i' mod k = j'" for i i'
      using that \<open>j \<noteq> j'\<close> assms(2) by (auto simp: nth_eq_iff_index_eq)
    then show ?thesis using that by (auto simp: nth)
  qed
  have cover: "\<Union> (set ` set bs) = set tests"
  proof
    show "\<Union> (set ` set bs) \<subseteq> set tests"
    proof
      fix x assume "x \<in> \<Union> (set ` set bs)"
      then obtain b where "b \<in> set bs" "x \<in> set b" by auto
      then obtain j where "j < k" "x \<in> set (bs ! j)"
        by (metis in_set_conv_nth len)
      then show "x \<in> set tests" by (auto simp: nth)
    qed
  next
    show "set tests \<subseteq> \<Union> (set ` set bs)"
    proof
      fix x assume "x \<in> set tests"
      then obtain i where i: "i < length tests" "tests ! i = x" by (auto simp: in_set_conv_nth)
      then have "0 < length tests" by (cases tests) auto
      then have kpos: "0 < k" unfolding k_def by (rule targetTaskCount_pos)
      then have "i mod k < k" by simp
      moreover have "x \<in> set (bs ! (i mod k))" using i kpos by (auto simp: nth)
      ultimately show "x \<in> \<Union> (set ` set bs)" using len by (metis UN_I nth_mem)
    qed
  qed
  show ?thesis
    unfolding Let_def bs_def [symmetric] k_def [symmetric]
    using len nth disj cover by auto
qed


theorem C8_round_robin_witness:
  "length (splitTestSetForMultirunIfEnabled 2 3 [mk_test 1 ''A.a'', mk_test 2 ''A.b'', mk_test 3 ''A.c'']) = 2
   \<and> \<Union> (set ` set (splitTestSetForMultirunIfEnabled 2 3 [mk_test 1 ''A.a'', mk_test 2 ''A.b'', mk_test 3 ''A.c'']))
      = {mk_test 1 ''A.a'', mk_test 2 ''A.b'', mk_test 3 ''A.c''}"
proof -
  have h1: "(2::nat) > 1" by simp
  have h2: "distinct [mk_test 1 ''A.a'', mk_test 2 ''A.b'', mk_test 3 ''A.c'']"
    by (simp add: mk_test_def)
  from C8_round_robin [OF h1 h2, of 3] show ?thesis
    by (simp add: Let_def targetTaskCount_def round_div_def)
qed

text \<open>
  C8 as stated fails on the number of buckets: with a limit of 2 and 10 tests selected
  out of 100 there is one bucket, and with a limit of 4 and all 5 tests selected there are
  5 buckets.
\<close>

theorem C8_counterexample:
  "length (splitTestSetForMultirunIfEnabled 2 100 (map (\<lambda>i. mk_test i ''T'') [0 ..< 10])) = 1
   \<and> length (splitTestSetForMultirunIfEnabled 4 5 (map (\<lambda>i. mk_test i ''T'') [0 ..< 5])) = 5"
  by (simp add: C8_len targetTaskCount_def round_div_def Let_def)

subsection \<open>A failing before-task\<close>

text \<open>
  C5 at a concrete input: the task \<open>build\<close> exits with code 1, so \<open>runTasks\<close> raises,
  and the selection is one test with no static event of its own. No process is
  spawned, and no event is sent for the test: its state stays as it was.
\<close>

theorem C5_failing_task_sends_no_event:
  "(\<exists>e. runTasks ''beforeEach'' [(''build'', Some 1)] = Inl e)
   \<and> run [(''build'', Some 1)] 1 1 False [mk_test 1 ''Suite.A''] [mk_test 1 ''Suite.A'']
     = \<lparr> notified = [], spawned = [] \<rparr>"
  by (simp add: run_def runTasks_def sentStaticErrorEvent_def sendStaticEvents_def
      getStaticEvent_def mk_test_def)

subsection \<open>Group creation\<close>

lemma find_suite_None: "(find (suite_compare l d) cs = None) = ((l, d) \<notin> set (suite_keys cs))"
  by (induction cs rule: suite_keys.induct) (auto simp: suite_compare_def)

lemma find_suite_Some: "find (suite_compare l d) cs = Some g \<Longrightarrow> suite_compare l d g \<and> g \<in> set cs"
  by (induction cs) (auto split: if_splits)

lemma find_append_None: "find P xs = None \<Longrightarrow> find P (xs @ ys) = find P ys"
  by (induction xs) (auto split: if_splits)

lemma suite_keys_append: "suite_keys (cs @ ds) = suite_keys cs @ suite_keys ds"
  by (induction cs rule: suite_keys.induct) auto

text \<open>
  C9. \<open>_getOrCreateChildSuite\<close> returns a child group \<open>g\<close> of the parent that matches
  (label, description). When the parent already has a matching child group, its
  children are unchanged and \<open>g\<close> is the first such child; otherwise exactly one new group
  with no children is appended, and \<open>g\<close> is that group. Asking again for the same
  (label, description) returns \<open>g\<close> and changes nothing. If no two child groups of the
  parent had the same (label, description) before, none have afterwards.
\<close>

theorem C9_getOrCreateChildSuite:
  "(case getOrCreateChildSuite l d tooltip cs of (g, cs') \<Rightarrow>
      suite_compare l d g \<and> g \<in> set cs'
    \<and> (if (l, d) \<in> set (suite_keys cs)
        then cs' = cs \<and> find (suite_compare l d) cs = Some g
        else cs' = cs @ [SuiteItem l d tooltip []] \<and> g = SuiteItem l d tooltip [])
    \<and> getOrCreateChildSuite l d tooltip' cs' = (g, cs')
    \<and> (distinct (suite_keys cs) \<longrightarrow> distinct (suite_keys cs')))"
proof (cases "find (suite_compare l d) cs")
  case None
  then have nk: "(l, d) \<notin> set (suite_keys cs)" by (simp add: find_suite_None)
  have f: "find (suite_compare l d) (cs @ [SuiteItem l d tooltip []]) = Some (SuiteItem l d tooltip [])"
    using None by (simp add: find_append_None suite_compare_def)
  show ?thesis using None nk f
    by (simp add: getOrCreateChildSuite_def addSuite_def Let_def suite_compare_def suite_keys_append)
next
  case (Some g)
  then have k: "(l, d) \<in> set (suite_keys cs)" using find_suite_None [of l d cs] by auto
  show ?thesis using Some k find_suite_Some [OF Some]
    by (simp add: getOrCreateChildSuite_def)
qed


theorem C9_getOrCreateChildSuite_witness:
  "distinct (suite_keys [SuiteItem ''exe'' ''bin/'' ''Path'' [], TestItem (mk_test 1 ''A'')])
   \<and> getOrCreateChildSuite ''tagged'' [] [] [SuiteItem ''exe'' ''bin/'' ''Path'' [], TestItem (mk_test 1 ''A'')]
       = (SuiteItem ''tagged'' [] [] [],
          [SuiteItem ''exe'' ''bin/'' ''Path'' [], TestItem (mk_test 1 ''A''), SuiteItem ''tagged'' [] [] []])
   \<and> distinct (suite_keys (snd (getOrCreateChildSuite ''tagged'' [] []
         [SuiteItem ''exe'' ''bin/'' ''Path'' [], TestItem (mk_test 1 ''A'')])))"
  using C9_getOrCreateChildSuite [where l = "''tagged''" and d = "[]" and tooltip = "[]"
      and cs = "[SuiteItem ''exe'' ''bin/'' ''Path'' [], TestItem (mk_test 1 ''A'')]"
      and tooltip' = "[]"]
  by (simp add: getOrCreateChildSuite_def suite_compare_def addSuite_def Let_def)

subsection \<open>Removal of tests that a reload no longer reports\<close>

lemma tree_tests_simps:
  "tree_tests [] = []"
  "tree_tests (x # xs) = item_tests x @ tree_tests xs"
  "tree_tests (xs @ ys) = tree_tests xs @ tree_tests ys"
  "item_tests (SuiteItem l d tt cs) = tree_tests cs"
  by (simp_all add: tree_tests_def)

lemma tree_empty_suites_simps:
  "tree_empty_suites [] = []"
  "tree_empty_suites (x # xs) = empty_suites x @ tree_empty_suites xs"
  "tree_empty_suites (xs @ ys) = tree_empty_suites xs @ tree_empty_suites ys"
  by (simp_all add: tree_empty_suites_def)

lemma remove_in_Nil: "remove_in tid cs = Some cs' \<Longrightarrow> cs \<noteq> []"
  by auto

lemma remove_in_empty_suites:
  "remove_in tid cs = Some cs' \<Longrightarrow> tree_empty_suites cs' = tree_empty_suites cs"
proof (induction tid cs arbitrary: cs' rule: remove_in.induct)
  case (1 tid)
  then show ?case by simp
next
  case (2 tid t rest)
  then show ?case by (auto simp: tree_empty_suites_def split: if_splits)
next
  case (3 tid l d tt cs rest)
  show ?case
  proof (cases "remove_in tid cs")
    case None
    with 3 show ?thesis by (auto simp: tree_empty_suites_def)
  next
    case (Some cs2)
    then have ne: "cs \<noteq> []" by auto
    have ih: "tree_empty_suites cs2 = tree_empty_suites cs" using 3(1) Some by simp
    have cs': "cs' = removeIfLeaf (SuiteItem l d tt cs2) @ rest" using 3(3) Some by simp
    show ?thesis using ne ih
      by (cases "cs2 = []") (simp_all add: cs' tree_empty_suites_def)
  qed
qed

lemma remove_in_ids:
  "(case remove_in tid cs of
      None \<Rightarrow> tid \<notin> set (map item_id (tree_tests cs))
    | Some cs' \<Rightarrow> map item_id (tree_tests cs') = remove1 tid (map item_id (tree_tests cs))
         \<and> tid \<in> set (map item_id (tree_tests cs)))"
proof (induction tid cs rule: remove_in.induct)
  case (1 tid)
  then show ?case by (simp add: tree_tests_def)
next
  case (2 tid t rest)
  then show ?case
    by (cases "remove_in tid rest") (auto simp: tree_tests_simps)
next
  case (3 tid l d tt cs rest)
  show ?case
  proof (cases "remove_in tid cs")
    case None
    with 3 show ?thesis
      by (cases "remove_in tid rest") (auto simp: tree_tests_simps remove1_append simp del: item_tests.simps(2))
  next
    case (Some cs2)
    have ih: "map item_id (tree_tests cs2) = remove1 tid (map item_id (tree_tests cs))"
      "tid \<in> set (map item_id (tree_tests cs))" using 3(1) Some by simp_all
    show ?thesis using ih Some
      by (cases "cs2 = []") (simp_all add: tree_tests_simps remove1_append del: item_tests.simps(2))
  qed
qed

lemma removeWithLeafAscendants_ids:
  "map item_id (tree_tests (removeWithLeafAscendants tid cs)) = remove1 tid (map item_id (tree_tests cs))"
  using remove_in_ids [of tid cs]
  by (auto simp: removeWithLeafAscendants_def remove1_idem split: option.splits)

lemma removeWithLeafAscendants_empty_suites:
  "tree_empty_suites (removeWithLeafAscendants tid cs) = tree_empty_suites cs"
  using remove_in_empty_suites [of tid cs]
  by (auto simp: removeWithLeafAscendants_def split: option.splits)

lemma foldl_remove_known_test:
  "map item_id (tree_tests (root_children (foldl remove_known_test st ts)))
      = foldl (\<lambda>ids t. remove1 t ids) (map item_id (tree_tests (root_children st))) ts
   \<and> tree_empty_suites (root_children (foldl remove_known_test st ts)) = tree_empty_suites (root_children st)
   \<and> known_tests (foldl remove_known_test st ts) = filter (\<lambda>t. t \<notin> set ts) (known_tests st)
   \<and> lastReloadTime (foldl remove_known_test st ts) = lastReloadTime st"
proof (induction ts arbitrary: st)
  case Nil
  show ?case by simp
next
  case (Cons t ts)
  have "filter (\<lambda>x. x \<notin> set ts) (removeAll t ks) = filter (\<lambda>x. x \<noteq> t \<and> x \<notin> set ts) ks" for ks
    by (induction ks) auto
  then show ?case using Cons [of "remove_known_test st t"]
    by (simp add: remove_known_test_def removeWithLeafAscendants_ids removeWithLeafAscendants_empty_suites)
qed

lemma foldl_remove1_set:
  "distinct ids \<Longrightarrow> distinct (foldl (\<lambda>ids t. remove1 t ids) ids ts)
     \<and> set (foldl (\<lambda>ids t. remove1 t ids) ids ts) = set ids - set ts"
  by (induction ts arbitrary: ids) auto

text \<open>
  C7. A reload runs (it is not cancelled and not skipped) and \<open>_reloadChildren\<close> answers
  with a result; \<open>st\<close> is the state before the reload and \<open>st2\<close> the state that
  \<open>_reloadChildren\<close> leaves, in which the tests of the tree are distinct objects and every
  test known before the reload is still known (\<open>_reloadChildren\<close> only adds to \<open>_tests\<close>; for
  the doctest runnable this is \<open>reloadFromString_loop_known\<close> below). Then every test
  known before the reload and absent from the result is, after \<open>reloadTests\<close>, neither
  in the tree nor in \<open>_tests\<close>. The tree holds the tests it held in \<open>st2\<close> except the known
  tests absent from the result; and the groups without children are the same as in \<open>st2\<close>:
  every group that lost its last child through a removal is gone as well, up the chain
  of ancestors.
\<close>

theorem C7_removed_tests:
  assumes "\<not> cancellationFlag"
    and "lastReloadTime st = None \<or> lastModiTime = None \<or> lastReloadTime st \<noteq> lastModiTime"
    and "reloadChildren (st\<lparr> lastReloadTime := lastModiTime \<rparr>) = (Inr reloadResult, st2)"
    and "distinct (map item_id (tree_tests (root_children st2)))"
    and "set (known_tests st) \<subseteq> set (known_tests st2)"
  shows "case reloadTests cancellationFlag lastModiTime reloadChildren st of (outcome, st3) \<Rightarrow>
      outcome = Reloaded
    \<and> (\<forall>t \<in> set (known_tests st). t \<notin> set (result_tests reloadResult) \<longrightarrow>
          t \<notin> set (map item_id (tree_tests (root_children st3))) \<and> t \<notin> set (known_tests st3))
    \<and> set (map item_id (tree_tests (root_children st3)))
        = set (map item_id (tree_tests (root_children st2)))
          - {t. t \<in> set (known_tests st2) \<and> t \<notin> set (result_tests reloadResult)}
    \<and> set (known_tests st3)
        = set (known_tests st2) - {t. t \<notin> set (result_tests reloadResult)}
    \<and> tree_empty_suites (root_children st3) = tree_empty_suites (root_children st2)"
proof -
  define toRemove where "toRemove = filter (\<lambda>t. indexOf (result_tests reloadResult) t = -1) (known_tests st2)"
  have tr: "set toRemove = {t. t \<in> set (known_tests st2) \<and> t \<notin> set (result_tests reloadResult)}"
    by (auto simp: toRemove_def indexOf_minus1)
  have r: "reloadTests cancellationFlag lastModiTime reloadChildren st =
      (Reloaded, if length toRemove > 0 \<or> changedAny reloadResult then foldl remove_known_test st2 toRemove else st2)"
    using assms(1,2,3) by (auto simp: reloadTests_def Let_def toRemove_def)
  have same: "foldl remove_known_test st2 toRemove = st2" if "toRemove = []"
    using that by simp
  have r': "reloadTests cancellationFlag lastModiTime reloadChildren st = (Reloaded, foldl remove_known_test st2 toRemove)"
    using r same by (cases "toRemove = []") auto
  define st3 where "st3 = foldl remove_known_test st2 toRemove"
  have ids: "set (map item_id (tree_tests (root_children st3)))
      = set (map item_id (tree_tests (root_children st2))) - set toRemove"
    using foldl_remove_known_test [of st2 toRemove] foldl_remove1_set [OF assms(4), of toRemove]
    unfolding st3_def by simp
  have known: "set (known_tests st3) = set (known_tests st2) - {t. t \<notin> set (result_tests reloadResult)}"
    using foldl_remove_known_test [of st2 toRemove] unfolding st3_def by (auto simp: tr)
  have empties: "tree_empty_suites (root_children st3) = tree_empty_suites (root_children st2)"
    using foldl_remove_known_test [of st2 toRemove] unfolding st3_def by simp
  have gone: "t \<notin> set (map item_id (tree_tests (root_children st3))) \<and> t \<notin> set (known_tests st3)"
    if "t \<in> set (known_tests st)" "t \<notin> set (result_tests reloadResult)" for t
  proof -
    have "t \<in> set toRemove" using that assms(5) by (auto simp: tr)
    then show ?thesis using ids known that(2) by auto
  qed
  show ?thesis
    unfolding r' st3_def [symmetric] using ids known empties gone by (simp add: tr)
qed

text \<open>
  An instance: the tests 1, 2 and 3 are known, the reload reports 1 and 2. Test 3 and
  the two groups around it, which held nothing else, are gone.
\<close>

theorem C7_removed_tests_witness:
  "(3::nat) \<in> set (known_tests \<lparr> lastReloadTime = Some 1, known_tests = [1, 2, 3],
           root_children = [SuiteItem ''exe'' [] [] [TestItem (mk_test 1 ''A''), TestItem (mk_test 2 ''B'')],
                            SuiteItem ''old'' [] [] [SuiteItem ''inner'' [] [] [TestItem (mk_test 3 ''C'')]]] \<rparr>)
   \<and> (3::nat) \<notin> set (map item_id (tree_tests (root_children (snd
      (reloadTests False (Some 2) (\<lambda>s. (Inr \<lparr> result_tests = [1, 2], changedAny = False \<rparr>, s))
         \<lparr> lastReloadTime = Some 1, known_tests = [1, 2, 3],
           root_children = [SuiteItem ''exe'' [] [] [TestItem (mk_test 1 ''A''), TestItem (mk_test 2 ''B'')],
                            SuiteItem ''old'' [] [] [SuiteItem ''inner'' [] [] [TestItem (mk_test 3 ''C'')]]] \<rparr>)))))
   \<and> known_tests (snd
      (reloadTests False (Some 2) (\<lambda>s. (Inr \<lparr> result_tests = [1, 2], changedAny = False \<rparr>, s))
         \<lparr> lastReloadTime = Some 1, known_tests = [1, 2, 3],
           root_children = [SuiteItem ''exe'' [] [] [TestItem (mk_test 1 ''A''), TestItem (mk_test 2 ''B'')],
                            SuiteItem ''old'' [] [] [SuiteItem ''inner'' [] [] [TestItem (mk_test 3 ''C'')]]] \<rparr>))
     = [1, 2]
   \<and> root_children (snd
      (reloadTests False (Some 2) (\<lambda>s. (Inr \<lparr> result_tests = [1, 2], changedAny = False \<rparr>, s))
         \<lparr> lastReloadTime = Some 1, known_tests = [1, 2, 3],
           root_children = [SuiteItem ''exe'' [] [] [TestItem (mk_test 1 ''A''), TestItem (mk_test 2 ''B'')],
                            SuiteItem ''old'' [] [] [SuiteItem ''inner'' [] [] [TestItem (mk_test 3 ''C'')]]] \<rparr>))
     = [SuiteItem ''exe'' [] [] [TestItem (mk_test 1 ''A''), TestItem (mk_test 2 ''B'')]]"
proof -
  let ?rc = "\<lambda>s :: RunnableState. (Inr \<lparr> result_tests = [1, 2], changedAny = False \<rparr> :: string + RunnableReloadResult, s)"
  let ?tree = "[SuiteItem ''exe'' [] [] [TestItem (mk_test 1 ''A''), TestItem (mk_test 2 ''B'')],
                SuiteItem ''old'' [] [] [SuiteItem ''inner'' [] [] [TestItem (mk_test 3 ''C'')]]]"
  let ?st = "\<lparr> lastReloadTime = Some 1, known_tests = [1, 2, 3], root_children = ?tree \<rparr>"
  have h1: "\<not> False" by simp
  have h2: "lastReloadTime ?st = None \<or> Some 2 = None \<or> lastReloadTime ?st \<noteq> Some 2" by simp
  have h3: "?rc (?st\<lparr> lastReloadTime := Some 2 \<rparr>)
      = (Inr \<lparr> result_tests = [1, 2], changedAny = False \<rparr>, ?st\<lparr> lastReloadTime := Some 2 \<rparr>)" by simp
  have h4: "distinct (map item_id (tree_tests (root_children (?st\<lparr> lastReloadTime := Some 2 \<rparr>))))"
    by (simp add: tree_tests_def mk_test_def)
  have h5: "set (known_tests ?st) \<subseteq> set (known_tests (?st\<lparr> lastReloadTime := Some 2 \<rparr>))" by simp
  from C7_removed_tests [where reloadChildren = ?rc and st = ?st and lastModiTime = "Some 2"
      and cancellationFlag = False, OF h1 h2 h3 h4 h5] show ?thesis
    by (simp add: reloadTests_def Let_def remove_known_test_def removeWithLeafAscendants_def
        mk_test_def tree_tests_def)
qed

text \<open>
  The doctest runnable's \<open>_reloadChildren\<close> only adds to \<open>_tests\<close>: what was known before is
  known afterwards.
\<close>

lemma reloadFromString_loop_known:
  "reloadFromString_loop nz gr rn cancelled_at new_id i testCases res st = (out, st2)
     \<Longrightarrow> set (known_tests st) \<subseteq> set (known_tests st2)"
proof (induction testCases arbitrary: i res st)
  case Nil
  then show ?case by simp
next
  case (Cons e rest)
  show ?case
  proof (cases "cancelled_at i")
    case True
    with Cons.prems show ?thesis by simp
  next
    case False
    obtain cs r where c: "createSubtreeAndAddTest (gr e) (tc_name e)
          (new_DOCTest nz rn (new_id i) (tc_name e) (tc_skipped e) (tc_filePath e) (tc_line e) (tc_tags e))
          (DOC_updateTest nz (tc_filePath e) (tc_line e) (tc_tags e) (tc_skipped e))
          (root_children st) = (cs, r)"
      by (cases "createSubtreeAndAddTest (gr e) (tc_name e)
          (new_DOCTest nz rn (new_id i) (tc_name e) (tc_skipped e) (tc_filePath e) (tc_line e) (tc_tags e))
          (DOC_updateTest nz (tc_filePath e) (tc_line e) (tc_tags e) (tc_skipped e))
          (root_children st)")
    show ?thesis
    proof (cases r)
      case (Inl err)
      with Cons.prems False c show ?thesis by auto
    next
      case (Inr x)
      obtain test changed created where x: "x = (test, changed, created)" by (cases x)
      let ?st1 = "st\<lparr> root_children := cs,
                    known_tests := (if created then set_add (item_id test) (known_tests st)
                                    else known_tests st) \<rparr>"
      from Cons.prems False c Inr x
      have "reloadFromString_loop nz gr rn cancelled_at new_id (i + 1) rest
              (result_add res test changed) ?st1 = (out, st2)"
        by simp
      from Cons.IH [OF this] show ?thesis by (auto simp: set_add_def split: if_splits)
    qed
  qed
qed

subsection \<open>A second reload of the same test list\<close>

lemma find_replace_first:
  "find P xs = Some x \<Longrightarrow> P y \<Longrightarrow> find P (replace_first P y xs) = Some y"
  by (induction xs) (auto split: if_splits)

lemma replace_first_same:
  "find P xs = Some x \<Longrightarrow> replace_first P x xs = xs"
  by (induction xs) (auto split: if_splits)

lemma find_replace_first_neutral:
  "(\<And>x. P x \<Longrightarrow> \<not> Q x) \<Longrightarrow> \<not> Q y \<Longrightarrow> find Q (replace_first P y xs) = find Q xs"
  by (induction xs) auto

lemma find_replace_first_other:
  "find P xs = Some x \<Longrightarrow> \<not> Q x \<Longrightarrow> \<not> Q y \<Longrightarrow> find Q (replace_first P y xs) = find Q xs"
  by (induction xs) (auto split: if_splits)

lemma find_Some_holds: "find P xs = Some x \<Longrightarrow> P x"
  by (induction xs) (auto split: if_splits)

lemma find_append_neutral: "\<not> Q y \<Longrightarrow> find Q (xs @ [y]) = find Q xs"
  by (induction xs) auto

lemma find_test_compare:
  "find (test_compare n) cs = Some v \<Longrightarrow> \<exists>t. v = TestItem t \<and> test_compare n (TestItem t)"
  by (induction cs) (auto simp: test_compare_def split: if_splits TreeItem.splits)

lemma test_compare_FrameworkTest:
  "test_class t = FrameworkTest \<Longrightarrow> test_compare n (TestItem t) = (testNameAsId t = n)"
  by (simp add: test_compare_def)

lemma test_compare_same:
  "testNameAsId t' = testNameAsId t \<Longrightarrow> test_class t' = test_class t
     \<Longrightarrow> test_compare n (TestItem t') = test_compare n (TestItem t)"
  by (simp add: test_compare_def split: TestClass.splits)

lemma find_suite_compare:
  "find (suite_compare l d) cs = Some v \<Longrightarrow> \<exists>tt gcs. v = SuiteItem l d tt gcs"
  by (induction cs) (auto simp: suite_compare_def split: if_splits TreeItem.splits)

lemma getOrCreate_cases:
  obtains (found) tt gcs where "find (suite_compare l d) cs = Some (SuiteItem l d tt gcs)"
      "getOrCreateChildSuite l d tooltip cs = (SuiteItem l d tt gcs, cs)"
  | (created) "find (suite_compare l d) cs = None"
      "getOrCreateChildSuite l d tooltip cs = (SuiteItem l d tooltip [], cs @ [SuiteItem l d tooltip []])"
proof (cases "find (suite_compare l d) cs")
  case None
  then show ?thesis using created by (simp add: getOrCreateChildSuite_def addSuite_def Let_def)
next
  case (Some v)
  then obtain tt gcs where "v = SuiteItem l d tt gcs" using find_suite_compare by blast
  then show ?thesis using found Some by (simp add: getOrCreateChildSuite_def)
qed

lemma test_suite_disjoint: "test_compare n v \<Longrightarrow> \<not> suite_compare l d v"
  "suite_compare l d v \<Longrightarrow> \<not> test_compare n v"
  by (auto simp: test_compare_def suite_compare_def split: TreeItem.splits)

lemma lookup_test_noop:
  "lookup_test (path_key p) n cs = Some t \<Longrightarrow> updateTest t = Inr (False, t) \<Longrightarrow>
     createSubtreeAndAddTest p n createTest updateTest cs = (cs, Inr (t, False, False))"
proof (induction p arbitrary: cs)
  case Nil
  then obtain v where f: "find (test_compare n) cs = Some v"
    by (auto simp: path_key_def split: option.splits)
  then have v: "v = TestItem t" using Nil(1) by (auto simp: path_key_def split: TreeItem.splits)
  show ?case using f Nil(2) by (simp add: v replace_first_same)
next
  case (Cons a p)
  obtain l d tooltip where a: "a = (l, d, tooltip)" by (cases a)
  from Cons(2) obtain tt gcs where f: "find (suite_compare l d) cs = Some (SuiteItem l d tt gcs)"
    and lk: "lookup_test (path_key p) n gcs = Some t"
    using find_suite_compare [of l d cs]
    by (auto simp: a path_key_def split: option.splits TreeItem.splits)
  have g: "getOrCreateChildSuite l d tooltip cs = (SuiteItem l d tt gcs, cs)"
    using f by (simp add: getOrCreateChildSuite_def)
  from Cons(1) [OF lk Cons(3)] show ?case
    using f by (simp add: a g Let_def replace_first_same)
qed


lemma createSubtree_result:
  assumes "createSubtreeAndAddTest p n createTest updateTest cs = (cs', Inr (t, ch, cr))"
    and U1: "\<And>t0 r. updateTest t0 = Inr r \<Longrightarrow>
               testNameAsId (snd r) = testNameAsId t0 \<and> test_class (snd r) = test_class t0"
    and U2: "\<And>t0 r. updateTest t0 = Inr r \<Longrightarrow> updateTest (snd r) = Inr (False, snd r)"
    and C1: "\<And>t0. createTest = Inr t0 \<Longrightarrow> testNameAsId t0 = n \<and> test_class t0 = FrameworkTest"
    and C2: "\<And>t0. createTest = Inr t0 \<Longrightarrow> updateTest t0 = Inr (False, t0)"
  shows "lookup_test (path_key p) n cs' = Some t \<and> updateTest t = Inr (False, t)"
  using assms(1)
proof (induction p arbitrary: cs cs')
  case Nil
  show ?case
  proof (cases "find (test_compare n) cs")
    case None
    with Nil obtain t0 where c: "createTest = Inr t0" and t: "t = t0" and cs': "cs' = cs @ [TestItem t0]"
      by (auto simp: addTest_def split: sum.splits)
    have "find (test_compare n) (cs @ [TestItem t0]) = Some (TestItem t0)"
      using None C1 [OF c] by (simp add: find_append_None test_compare_def)
    then show ?thesis using C2 [OF c] by (simp add: cs' t path_key_def)
  next
    case (Some v)
    then obtain old where v: "v = TestItem old" and nm: "test_compare n (TestItem old)"
      using find_test_compare by blast
    with Nil Some obtain r where u: "updateTest old = Inr r" and t: "t = snd r"
      and cs': "cs' = replace_first (test_compare n) (TestItem (snd r)) cs"
      by (auto split: sum.splits)
    have "test_compare n (TestItem (snd r))"
      using test_compare_same [of "snd r" old n] U1 [OF u] nm by simp
    from find_replace_first [OF Some this]
    show ?thesis using U2 [OF u] by (simp add: cs' t path_key_def)
  qed
next
  case (Cons a p)
  obtain l d tooltip where a: "a = (l, d, tooltip)" by (cases a)
  obtain g cs1 where g: "getOrCreateChildSuite l d tooltip cs = (g, cs1)"
    by (cases "getOrCreateChildSuite l d tooltip cs")
  obtain tt gcs where gi: "g = SuiteItem l d tt gcs" and f1: "find (suite_compare l d) cs1 = Some g"
    using g by (cases rule: getOrCreate_cases [of l d cs tooltip])
      (auto simp: find_append_None suite_compare_def)
  obtain gc' out where r: "createSubtreeAndAddTest p n createTest updateTest gcs = (gc', out)"
    by (cases "createSubtreeAndAddTest p n createTest updateTest gcs")
  from Cons(2) have out: "out = Inr (t, ch, cr)"
    and cs': "cs' = replace_first (suite_compare l d) (SuiteItem l d tt gc') cs1"
    by (simp_all add: a g gi r Let_def)
  have ih: "lookup_test (path_key p) n gc' = Some t \<and> updateTest t = Inr (False, t)"
    using Cons(1) r out by simp
  have "find (suite_compare l d) cs' = Some (SuiteItem l d tt gc')"
    unfolding cs' using f1 by (rule find_replace_first) (simp add: suite_compare_def)
  then show ?case using ih by (simp add: a path_key_def)
qed

lemma createSubtree_other:
  assumes "createSubtreeAndAddTest p n createTest updateTest cs = (cs', out)"
    and U1: "\<And>t0 r. updateTest t0 = Inr r \<Longrightarrow>
               testNameAsId (snd r) = testNameAsId t0 \<and> test_class (snd r) = test_class t0
               \<and> test_class t0 = FrameworkTest"
    and C1: "\<And>t0. createTest = Inr t0 \<Longrightarrow> testNameAsId t0 = n \<and> test_class t0 = FrameworkTest"
    and "(k', n') \<noteq> (path_key p, n)"
  shows "lookup_test k' n' cs' = lookup_test k' n' cs"
  using assms(1,4)
proof (induction p arbitrary: cs cs' k' out)
  case Nil
  have find_other: "find Q cs' = find Q cs"
    if Q: "\<And>t0. testNameAsId t0 = n \<Longrightarrow> test_class t0 = FrameworkTest \<Longrightarrow> \<not> Q (TestItem t0)" for Q
  proof (cases "find (test_compare n) cs")
    case None
    show ?thesis
    proof (cases createTest)
      case (Inl err)
      with Nil None show ?thesis by simp
    next
      case (Inr t0)
      with Nil None have "cs' = cs @ [TestItem t0]" by (simp add: addTest_def)
      then show ?thesis using Q C1 [OF Inr] by (simp add: find_append_neutral)
    qed
  next
    case (Some v)
    then obtain old where v: "v = TestItem old" and cmp: "test_compare n (TestItem old)"
      using find_test_compare by blast
    show ?thesis
    proof (cases "updateTest old")
      case (Inl err)
      with Nil Some v show ?thesis by simp
    next
      case (Inr r)
      with Nil Some v have cs': "cs' = replace_first (test_compare n) (TestItem (snd r)) cs" by simp
      have cl: "test_class old = FrameworkTest" "test_class (snd r) = FrameworkTest"
        and nm': "testNameAsId (snd r) = testNameAsId old"
        using U1 [OF Inr] by simp_all
      have nm: "testNameAsId old = n" using cmp cl(1) by (simp add: test_compare_FrameworkTest)
      have "\<not> Q (TestItem (snd r))" using nm' nm cl(2) Q by simp
      moreover have "\<not> Q (TestItem old)" using nm cl(1) Q by simp
      ultimately show ?thesis unfolding cs' using Some v
        by (simp add: find_replace_first_other)
    qed
  qed
  show ?case
  proof (cases k')
    case Nil
    with \<open>(k', n') \<noteq> (path_key [], n)\<close> have "n' \<noteq> n" by (simp add: path_key_def)
    then have "find (test_compare n') cs' = find (test_compare n') cs"
      by (intro find_other) (simp add: test_compare_FrameworkTest)
    then show ?thesis using Nil by simp
  next
    case (Cons kd ks)
    obtain l d where kd: "kd = (l, d)" by (cases kd)
    have "find (suite_compare l d) cs' = find (suite_compare l d) cs"
      by (intro find_other) (simp add: suite_compare_def)
    then show ?thesis using Cons kd by simp
  qed
next
  case (Cons a p)
  note IH = Cons.IH and prems = Cons.prems
  obtain l d tooltip where a: "a = (l, d, tooltip)" by (cases a)
  obtain g cs1 where g: "getOrCreateChildSuite l d tooltip cs = (g, cs1)"
    by (cases "getOrCreateChildSuite l d tooltip cs")
  obtain tt gcs where gi: "g = SuiteItem l d tt gcs" and f1: "find (suite_compare l d) cs1 = Some g"
    and cs1: "(find (suite_compare l d) cs = Some g \<and> cs1 = cs)
        \<or> (find (suite_compare l d) cs = None \<and> gcs = [] \<and> cs1 = cs @ [g])"
    using g by (cases rule: getOrCreate_cases [of l d cs tooltip])
      (auto simp: find_append_None suite_compare_def)
  obtain gc' out' where r: "createSubtreeAndAddTest p n createTest updateTest gcs = (gc', out')"
    by (cases "createSubtreeAndAddTest p n createTest updateTest gcs")
  from Cons(2) have cs': "cs' = replace_first (suite_compare l d) (SuiteItem l d tt gc') cs1"
    by (simp_all add: a g gi r Let_def)
  have find_other: "find Q cs' = find Q cs" if Q: "\<And>x. suite_compare l d x \<Longrightarrow> \<not> Q x" for Q
  proof -
    have "\<not> Q (SuiteItem l d tt gc')" "\<not> Q g" using Q by (simp_all add: suite_compare_def gi)
    then have "find Q cs' = find Q cs1" unfolding cs' using Q by (simp add: find_replace_first_neutral)
    also have "\<dots> = find Q cs" using cs1 \<open>\<not> Q g\<close> by (auto simp: find_append_neutral)
    finally show ?thesis .
  qed
  have f': "find (suite_compare l d) cs' = Some (SuiteItem l d tt gc')"
    unfolding cs' using f1 by (rule find_replace_first) (simp add: suite_compare_def)
  show ?case
  proof (cases k')
    case Nil
    have "find (test_compare n') cs' = find (test_compare n') cs"
      by (intro find_other) (simp add: test_suite_disjoint)
    then show ?thesis using Nil by simp
  next
    case (Cons kd ks)
    obtain l' d' where kd: "kd = (l', d')" by (cases kd)
    show ?thesis
    proof (cases "(l', d') = (l, d)")
      case False
      have "find (suite_compare l' d') cs' = find (suite_compare l' d') cs"
        using False by (intro find_other) (auto simp: suite_compare_def split: TreeItem.splits)
      then show ?thesis using Cons kd by simp
    next
      case True
      with prems(2) Cons kd have ne: "(ks, n') \<noteq> (path_key p, n)"
        by (auto simp: a path_key_def)
      have ih: "lookup_test ks n' gc' = lookup_test ks n' gcs"
        using IH [OF r ne] .
      have "lookup_test k' n' cs' = lookup_test ks n' gc'"
        using True Cons kd f' by simp
      also have "\<dots> = lookup_test ks n' gcs" by (rule ih)
      also have "\<dots> = lookup_test k' n' cs"
      proof -
        from cs1 show ?thesis
        proof
          assume "find (suite_compare l d) cs = Some g \<and> cs1 = cs"
          then show ?thesis using True Cons kd gi by simp
        next
          assume c: "find (suite_compare l d) cs = None \<and> gcs = [] \<and> cs1 = cs @ [g]"
          have "lookup_test ks n' [] = None" by (cases ks) auto
          then show ?thesis using c True Cons kd by simp
        qed
      qed
      finally show ?thesis .
    qed
  qed
qed

lemma lookup_test_Nil: "lookup_test k n [] = None"
  by (cases k) auto

lemma lookup_test_Cons_test:
  "lookup_test [] n (TestItem u # rest) = (if test_compare n (TestItem u) then Some u else lookup_test [] n rest)"
  "lookup_test (kd # ks) n (TestItem u # rest) = lookup_test (kd # ks) n rest"
  by (cases kd; simp add: test_compare_def suite_compare_def)+

lemma lookup_test_Cons_suite:
  "lookup_test [] n (SuiteItem l d tt gcs # rest) = lookup_test [] n rest"
  "lookup_test ((l', d') # ks) n (SuiteItem l d tt gcs # rest) =
     (if l' = l \<and> d' = d then lookup_test ks n gcs else lookup_test ((l', d') # ks) n rest)"
  by (auto simp: test_compare_def suite_compare_def)

lemma remove_in_lookup:
  "remove_in tid cs = Some cs' \<Longrightarrow> lookup_test k n cs = Some t \<Longrightarrow> item_id t \<noteq> tid
     \<Longrightarrow> lookup_test k n cs' = Some t"
proof (induction tid cs arbitrary: cs' k rule: remove_in.induct)
  case (1 tid)
  then show ?case by simp
next
  case (2 tid u rest)
  show ?case
  proof (cases "item_id u = tid")
    case True
    then have cs': "cs' = rest" using 2(2) by simp
    show ?thesis
    proof (cases k)
      case Nil
      with 2(3,4) True show ?thesis
        by (auto simp: cs' lookup_test_Cons_test simp del: lookup_test.simps split: if_splits)
    next
      case (Cons kd ks)
      with 2(3) show ?thesis
        by (simp add: cs' lookup_test_Cons_test del: lookup_test.simps)
    qed
  next
    case False
    with 2(2) obtain r' where r: "remove_in tid rest = Some r'" and cs': "cs' = TestItem u # r'"
      by auto
    note ih = 2(1) [OF False r _ 2(4)]
    show ?thesis
    proof (cases k)
      case Nil
      with 2(3) ih [of "[]"] show ?thesis
        by (auto simp: cs' lookup_test_Cons_test simp del: lookup_test.simps split: if_splits)
    next
      case (Cons kd ks)
      with 2(3) ih [of "kd # ks"] show ?thesis
        by (simp add: cs' lookup_test_Cons_test del: lookup_test.simps)
    qed
  qed
next
  case (3 tid l d tt gcs rest)
  show ?case
  proof (cases "remove_in tid gcs")
    case None
    with 3(3) obtain r' where r: "remove_in tid rest = Some r'" and cs': "cs' = SuiteItem l d tt gcs # r'"
      by auto
    note ih = 3(2) [OF None r _ 3(5)]
    show ?thesis
    proof (cases k)
      case Nil
      with 3(4) ih [of "[]"] show ?thesis
        by (simp add: cs' lookup_test_Cons_suite del: lookup_test.simps)
    next
      case (Cons kd ks)
      obtain l' d' where kd: "kd = (l', d')" by (cases kd)
      with Cons 3(4) ih [of "(l', d') # ks"] show ?thesis
        by (cases "l' = l \<and> d' = d") (auto simp: cs' lookup_test_Cons_suite simp del: lookup_test.simps)
    qed
  next
    case (Some gcs2)
    with 3(3) have cs': "cs' = removeIfLeaf (SuiteItem l d tt gcs2) @ rest" by simp
    show ?thesis
    proof (cases k)
      case Nil
      with 3(4) show ?thesis
        by (cases "gcs2 = []") (simp_all add: cs' lookup_test_Cons_suite del: lookup_test.simps)
    next
      case (Cons kd ks)
      obtain l' d' where kd: "kd = (l', d')" by (cases kd)
      show ?thesis
      proof (cases "l' = l \<and> d' = d")
        case False
        with 3(4) Cons kd show ?thesis
          by (cases "gcs2 = []") (auto simp: cs' lookup_test_Cons_suite simp del: lookup_test.simps)
      next
        case True
        with 3(4) Cons kd have "lookup_test ks n gcs = Some t"
          by (simp add: lookup_test_Cons_suite del: lookup_test.simps)
        from 3(1) [OF Some this 3(5)] have l2: "lookup_test ks n gcs2 = Some t" .
        then have "gcs2 \<noteq> []" by (auto simp: lookup_test_Nil)
        then show ?thesis using l2 True Cons kd
          by (simp add: cs' lookup_test_Cons_suite del: lookup_test.simps)
      qed
    qed
  qed
qed

lemma removeWithLeafAscendants_lookup:
  "lookup_test k n cs = Some t \<Longrightarrow> item_id t \<noteq> tid
     \<Longrightarrow> lookup_test k n (removeWithLeafAscendants tid cs) = Some t"
  using remove_in_lookup [of tid cs _ k n t]
  by (auto simp: removeWithLeafAscendants_def split: option.splits)

lemma foldl_remove_known_test_lookup:
  "lookup_test k n (root_children st) = Some t \<Longrightarrow> item_id t \<notin> set ts
     \<Longrightarrow> lookup_test k n (root_children (foldl remove_known_test st ts)) = Some t"
proof (induction ts arbitrary: st)
  case Nil
  then show ?case by simp
next
  case (Cons a ts)
  have "lookup_test k n (root_children (remove_known_test st a)) = Some t"
    using Cons(2,3) by (simp add: remove_known_test_def removeWithLeafAscendants_lookup)
  from Cons(1) [OF this] Cons(3) show ?case by simp
qed

lemma updateBase_Inr:
  assumes "updateBase nz lbl fl ln skp tgs descr tp vp se t0 = Inr r"
  shows "testNameAsId (snd r) = testNameAsId t0"
    "updateBase nz lbl fl ln skp tgs descr tp vp se (snd r) = Inr (False, snd r)"
    "test_class (snd r) = test_class t0"
proof -
  define newFile where "newFile = (case fl of None \<Rightarrow> None
                        | Some f \<Rightarrow> if f = [] then None else Some (nz f))"
  define td where "td = (length tgs \<noteq> length (tags t0) \<or> list_ex (\<lambda>t. indexOf (tags t0) t = -1) tgs)"
  define t1 where "t1 = t0\<lparr> label := lbl, src_file := newFile, src_line := ln, own_skipped := skp,
                       testDescription := descr,
                       tags := (if td then tgs else tags t0),
                       typeParam := tp, valueParam := vp, staticEvent := se \<rparr>"
  have guard: "\<not> (case ln of None \<Rightarrow> False | Some l \<Rightarrow> l \<noteq> 0 \<and> l < 0)"
    using assms unfolding updateBase_def by (simp split: if_splits)
  then have r: "snd r = t1"
    using assms unfolding updateBase_def Let_def newFile_def [symmetric] td_def [symmetric] t1_def
    by auto
  show "testNameAsId (snd r) = testNameAsId t0" by (simp add: r t1_def)
  show "test_class (snd r) = test_class t0" by (simp add: r t1_def)
  have td1: "\<not> (length tgs \<noteq> length (tags t1) \<or> list_ex (\<lambda>t. indexOf (tags t1) t = -1) tgs)"
  proof (cases td)
    case True
    then have "tags t1 = tgs" by (simp add: t1_def)
    then show ?thesis by (simp add: list_ex_iff indexOf_minus1)
  next
    case False
    then have "tags t1 = tags t0" by (simp add: t1_def)
    then show ?thesis using False by (simp add: td_def)
  qed
  have flds: "label t1 = lbl" "src_file t1 = newFile" "src_line t1 = ln" "own_skipped t1 = skp"
    "testDescription t1 = descr" "typeParam t1 = tp" "valueParam t1 = vp" "staticEvent t1 = se"
    by (simp_all add: t1_def)
  have same: "t1\<lparr> label := lbl, src_file := newFile, src_line := ln, own_skipped := skp,
                       testDescription := descr, tags := tags t1,
                       typeParam := tp, valueParam := vp, staticEvent := se \<rparr> = t1"
    by (simp add: t1_def)
  show "updateBase nz lbl fl ln skp tgs descr tp vp se (snd r) = Inr (False, snd r)"
    unfolding r updateBase_def Let_def newFile_def [symmetric]
    using guard td1 by (simp add: flds same)
qed

lemma DOCTest_update_Inr:
  assumes "DOCTest_update nz fl ln tgs skp t0 = Inr r"
  shows "testNameAsId (snd r) = testNameAsId t0"
    "DOCTest_update nz fl ln tgs skp (snd r) = Inr (False, snd r)"
    "test_class (snd r) = test_class t0"
proof -
  let ?u = "updateBase nz (label t0) fl ln skp tgs (testDescription t0) (typeParam t0)
       (valueParam t0) (staticEvent t0)"
  have u: "?u t0 = Inr r" using assms by (simp add: DOCTest_update_def)
  show "testNameAsId (snd r) = testNameAsId t0" using u by (rule updateBase_Inr(1))
  show "test_class (snd r) = test_class t0" using u by (rule updateBase_Inr(3))
  have idem: "?u (snd r) = Inr (False, snd r)" using u by (rule updateBase_Inr(2))
  have guard: "\<not> (case ln of None \<Rightarrow> False | Some l \<Rightarrow> l \<noteq> 0 \<and> l < 0)"
    using u unfolding updateBase_def by (simp split: if_splits)
  have "label (snd r) = label t0 \<and> testDescription (snd r) = testDescription t0
      \<and> typeParam (snd r) = typeParam t0 \<and> valueParam (snd r) = valueParam t0
      \<and> staticEvent (snd r) = staticEvent t0"
    using u guard unfolding updateBase_def Let_def by auto
  then show "DOCTest_update nz fl ln tgs skp (snd r) = Inr (False, snd r)"
    using idem by (simp add: DOCTest_update_def)
qed

lemma DOC_updateTest_Inr:
  assumes "DOC_updateTest nz fl ln tgs skp t0 = Inr r"
  shows "testNameAsId (snd r) = testNameAsId t0 \<and> test_class (snd r) = test_class t0
       \<and> test_class t0 = FrameworkTest"
    "DOC_updateTest nz fl ln tgs skp (snd r) = Inr (False, snd r)"
proof -
  have cl: "test_class t0 = FrameworkTest"
    using assms by (cases "test_class t0") (simp_all add: DOC_updateTest_def)
  then have u: "DOCTest_update nz fl ln tgs skp t0 = Inr r"
    using assms by (simp add: DOC_updateTest_def)
  show "testNameAsId (snd r) = testNameAsId t0 \<and> test_class (snd r) = test_class t0
       \<and> test_class t0 = FrameworkTest"
    using DOCTest_update_Inr(1,3) [OF u] cl by simp
  show "DOC_updateTest nz fl ln tgs skp (snd r) = Inr (False, snd r)"
    using DOCTest_update_Inr(2,3) [OF u] cl by (simp add: DOC_updateTest_def)
qed

lemma new_DOCTest_Inr:
  assumes "new_DOCTest nz rn i n skp fl ln tgs = Inr t0"
  shows "testNameAsId t0 = n \<and> test_class t0 = FrameworkTest"
    "DOC_updateTest nz fl ln tgs skp t0 = Inr (False, t0)"
proof -
  let ?u = "updateBase nz (doc_label n) fl ln skp tgs None None None None"
  from assms obtain r where u: "?u (blank_test rn i n) = Inr r"
    and t0: "t0 = (snd r)\<lparr> test_state := \<lparr> state = (if skp then Skipped else Unset), messages = None \<rparr> \<rparr>"
    by (auto simp: new_DOCTest_def split: sum.splits)
  have cl: "test_class t0 = FrameworkTest"
    using updateBase_Inr(3) [OF u] by (simp add: t0 blank_test_def)
  show "testNameAsId t0 = n \<and> test_class t0 = FrameworkTest"
    using updateBase_Inr(1) [OF u] cl by (simp add: t0 blank_test_def)
  have idem: "?u (snd r) = Inr (False, snd r)" using u by (rule updateBase_Inr(2))
  have guard: "\<not> (case ln of None \<Rightarrow> False | Some l \<Rightarrow> l \<noteq> 0 \<and> l < 0)"
    using u unfolding updateBase_def by (simp split: if_splits)
  have f: "label (snd r) = doc_label n \<and> testDescription (snd r) = None
      \<and> typeParam (snd r) = None \<and> valueParam (snd r) = None \<and> staticEvent (snd r) = None"
    using u guard unfolding updateBase_def Let_def by auto
  have "updateBase nz lbl fl ln skp tgs d tp vp se (t\<lparr> test_state := s \<rparr>)
      = map_sum id (\<lambda>r. (fst r, (snd r)\<lparr> test_state := s \<rparr>)) (updateBase nz lbl fl ln skp tgs d tp vp se t)"
    for lbl d tp vp se t s
    unfolding updateBase_def Let_def by simp
  then have "DOCTest_update nz fl ln tgs skp t0 = Inr (False, t0)"
    using idem f by (simp add: DOCTest_update_def t0)
  then show "DOC_updateTest nz fl ln tgs skp t0 = Inr (False, t0)"
    using cl by (simp add: DOC_updateTest_def)
qed

lemma step_facts:
  assumes "createSubtreeAndAddTest (gr e) (tc_name e)
            (new_DOCTest nz rn nid (tc_name e) (tc_skipped e) (tc_filePath e) (tc_line e) (tc_tags e))
            (DOC_updateTest nz (tc_filePath e) (tc_line e) (tc_tags e) (tc_skipped e)) cs = (cs', out)"
  shows "(k, n) \<noteq> entry_key gr e \<Longrightarrow> lookup_test k n cs' = lookup_test k n cs"
    and "out = Inr (t, ch, cr) \<Longrightarrow>
          lookup_test (path_key (gr e)) (tc_name e) cs' = Some t
          \<and> DOC_updateTest nz (tc_filePath e) (tc_line e) (tc_tags e) (tc_skipped e) t = Inr (False, t)"
proof -
  show "(k, n) \<noteq> entry_key gr e \<Longrightarrow> lookup_test k n cs' = lookup_test k n cs"
    unfolding entry_key_def
    by (rule createSubtree_other [OF assms]) (auto dest: DOC_updateTest_Inr(1) new_DOCTest_Inr(1))
  show "out = Inr (t, ch, cr) \<Longrightarrow>
          lookup_test (path_key (gr e)) (tc_name e) cs' = Some t
          \<and> DOC_updateTest nz (tc_filePath e) (tc_line e) (tc_tags e) (tc_skipped e) t = Inr (False, t)"
    using assms
    by (intro createSubtree_result [where ch = ch and cr = cr and cs = cs])
      (auto dest: DOC_updateTest_Inr new_DOCTest_Inr)
qed

lemma loop_other:
  "reloadFromString_loop nz gr rn ca nid i es res st = (out, st')
     \<Longrightarrow> (k, n) \<notin> entry_key gr ` set es
     \<Longrightarrow> lookup_test k n (root_children st') = lookup_test k n (root_children st)"
proof (induction es arbitrary: i res st)
  case Nil
  then show ?case by simp
next
  case (Cons e es)
  show ?case
  proof (cases "ca i")
    case True
    with Cons.prems show ?thesis by simp
  next
    case False
    obtain cs o1 where step: "createSubtreeAndAddTest (gr e) (tc_name e)
            (new_DOCTest nz rn (nid i) (tc_name e) (tc_skipped e) (tc_filePath e) (tc_line e) (tc_tags e))
            (DOC_updateTest nz (tc_filePath e) (tc_line e) (tc_tags e) (tc_skipped e)) (root_children st) = (cs, o1)"
      by (cases "createSubtreeAndAddTest (gr e) (tc_name e)
            (new_DOCTest nz rn (nid i) (tc_name e) (tc_skipped e) (tc_filePath e) (tc_line e) (tc_tags e))
            (DOC_updateTest nz (tc_filePath e) (tc_line e) (tc_tags e) (tc_skipped e)) (root_children st)")
    have ne: "(k, n) \<noteq> entry_key gr e" using Cons.prems(2) by auto
    have l1: "lookup_test k n cs = lookup_test k n (root_children st)"
      using step_facts(1) [where gr = gr and e = e, OF step ne] .
    show ?thesis
    proof (cases o1)
      case (Inl err)
      with Cons.prems(1) False step have "st' = st\<lparr> root_children := cs \<rparr>" by simp
      then show ?thesis using l1 by simp
    next
      case (Inr r)
      obtain t ch cr where r: "r = (t, ch, cr)" by (cases r)
      from Cons.prems(1) False step Inr r
      have "reloadFromString_loop nz gr rn ca nid (i + 1) es (result_add res t ch)
               (st\<lparr> root_children := cs,
                    known_tests := (if cr then set_add (item_id t) (known_tests st) else known_tests st) \<rparr>) = (out, st')"
        by simp
      from Cons.IH [OF this] Cons.prems(2) l1 show ?thesis by simp
    qed
  qed
qed

lemma loop_first:
  assumes "reloadFromString_loop nz gr rn ca nid i es res st = (Inr res', st')"
    and "\<forall>j. \<not> ca j" and "distinct (map (entry_key gr) es)"
  shows "(\<forall>e \<in> set es. \<exists>t. lookup_test (path_key (gr e)) (tc_name e) (root_children st') = Some t
            \<and> DOC_updateTest nz (tc_filePath e) (tc_line e) (tc_tags e) (tc_skipped e) t = Inr (False, t)
            \<and> item_id t \<in> set (result_tests res'))
       \<and> set (result_tests res) \<subseteq> set (result_tests res')
       \<and> (\<forall>x \<in> set (result_tests res'). x \<in> set (result_tests res)
             \<or> (\<exists>e \<in> set es. \<exists>t. lookup_test (path_key (gr e)) (tc_name e) (root_children st') = Some t
                   \<and> item_id t = x))
       \<and> set (known_tests st') \<subseteq> set (known_tests st) \<union> set (result_tests res')"
  using assms(1,3)
proof (induction es arbitrary: i res st)
  case Nil
  then show ?case by auto
next
  case (Cons e es)
  note IH = Cons.IH and prems = Cons.prems
  have nc: "\<not> ca i" using assms(2) by simp
  obtain cs o1 where step: "createSubtreeAndAddTest (gr e) (tc_name e)
          (new_DOCTest nz rn (nid i) (tc_name e) (tc_skipped e) (tc_filePath e) (tc_line e) (tc_tags e))
          (DOC_updateTest nz (tc_filePath e) (tc_line e) (tc_tags e) (tc_skipped e)) (root_children st) = (cs, o1)"
    by (cases "createSubtreeAndAddTest (gr e) (tc_name e)
          (new_DOCTest nz rn (nid i) (tc_name e) (tc_skipped e) (tc_filePath e) (tc_line e) (tc_tags e))
          (DOC_updateTest nz (tc_filePath e) (tc_line e) (tc_tags e) (tc_skipped e)) (root_children st)")
  from prems(1) nc step obtain t ch cr where o1: "o1 = Inr (t, ch, cr)"
    by (cases o1) auto
  define st1 where "st1 = st\<lparr> root_children := cs,
                    known_tests := (if cr then set_add (item_id t) (known_tests st) else known_tests st) \<rparr>"
  define res1 where "res1 = result_add res t ch"
  have rest: "reloadFromString_loop nz gr rn ca nid (i + 1) es res1 st1 = (Inr res', st')"
    using prems(1) nc step o1 by (simp add: st1_def res1_def)
  have d: "distinct (map (entry_key gr) es)" and notin: "entry_key gr e \<notin> entry_key gr ` set es"
    using prems(2) by auto
  note ih = IH [OF rest d]
  have here: "lookup_test (path_key (gr e)) (tc_name e) cs = Some t
      \<and> DOC_updateTest nz (tc_filePath e) (tc_line e) (tc_tags e) (tc_skipped e) t = Inr (False, t)"
    using step_facts(2) [where gr = gr and e = e, OF step o1] .
  have "lookup_test (path_key (gr e)) (tc_name e) (root_children st')
      = lookup_test (path_key (gr e)) (tc_name e) (root_children st1)"
    using loop_other [OF rest] notin by (simp add: entry_key_def)
  then have final: "lookup_test (path_key (gr e)) (tc_name e) (root_children st') = Some t"
    using here by (simp add: st1_def)
  have r1: "set (result_tests res1) = insert (item_id t) (set (result_tests res))"
    by (auto simp: res1_def result_add_def set_add_def)
  have k1: "set (known_tests st1) \<subseteq> insert (item_id t) (set (known_tests st))"
    by (auto simp: st1_def set_add_def)
  have tin: "item_id t \<in> set (result_tests res')" using ih r1 by auto
  show ?case
  proof (intro conjI)
    show "\<forall>e \<in> set (e # es). \<exists>t. lookup_test (path_key (gr e)) (tc_name e) (root_children st') = Some t
            \<and> DOC_updateTest nz (tc_filePath e) (tc_line e) (tc_tags e) (tc_skipped e) t = Inr (False, t)
            \<and> item_id t \<in> set (result_tests res')"
      using ih final here tin by auto
    show "set (result_tests res) \<subseteq> set (result_tests res')" using ih r1 by auto
    show "\<forall>x \<in> set (result_tests res'). x \<in> set (result_tests res)
             \<or> (\<exists>e \<in> set (e # es). \<exists>t. lookup_test (path_key (gr e)) (tc_name e) (root_children st') = Some t
                   \<and> item_id t = x)"
    proof
      fix x assume "x \<in> set (result_tests res')"
      with ih have "x \<in> set (result_tests res1)
          \<or> (\<exists>e \<in> set es. \<exists>t. lookup_test (path_key (gr e)) (tc_name e) (root_children st') = Some t
                   \<and> item_id t = x)" by blast
      then show "x \<in> set (result_tests res)
             \<or> (\<exists>e \<in> set (e # es). \<exists>t. lookup_test (path_key (gr e)) (tc_name e) (root_children st') = Some t
                   \<and> item_id t = x)"
        using r1 final by auto
    qed
    show "set (known_tests st') \<subseteq> set (known_tests st) \<union> set (result_tests res')"
      using ih k1 tin by auto
  qed
qed

lemma loop_second:
  assumes "\<forall>e \<in> set es. \<exists>t. lookup_test (path_key (gr e)) (tc_name e) (root_children st) = Some t
            \<and> DOC_updateTest nz (tc_filePath e) (tc_line e) (tc_tags e) (tc_skipped e) t = Inr (False, t)"
    and "\<forall>j. \<not> ca j"
  shows "\<exists>res'. reloadFromString_loop nz gr rn ca nid i es res st = (Inr res', st)
       \<and> changedAny res' = changedAny res
       \<and> set (result_tests res') = set (result_tests res)
            \<union> {item_id t | e t. e \<in> set es
                  \<and> lookup_test (path_key (gr e)) (tc_name e) (root_children st) = Some t}"
  using assms(1)
proof (induction es arbitrary: i res)
  case Nil
  show ?case by simp
next
  case (Cons e es)
  have nc: "\<not> ca i" using assms(2) by simp
  from Cons.prems obtain t where lk: "lookup_test (path_key (gr e)) (tc_name e) (root_children st) = Some t"
    and settled: "DOC_updateTest nz (tc_filePath e) (tc_line e) (tc_tags e) (tc_skipped e) t = Inr (False, t)"
    by auto
  have step: "createSubtreeAndAddTest (gr e) (tc_name e)
          (new_DOCTest nz rn (nid i) (tc_name e) (tc_skipped e) (tc_filePath e) (tc_line e) (tc_tags e))
          (DOC_updateTest nz (tc_filePath e) (tc_line e) (tc_tags e) (tc_skipped e)) (root_children st)
        = (root_children st, Inr (t, False, False))"
    using lk settled by (rule lookup_test_noop)
  have same: "st\<lparr> root_children := root_children st, known_tests := known_tests st \<rparr> = st"
    by simp
  have unfold: "reloadFromString_loop nz gr rn ca nid i (e # es) res st
      = reloadFromString_loop nz gr rn ca nid (i + 1) es (result_add res t False) st"
    using nc by (simp add: step same)
  from Cons.IH [of "i + 1" "result_add res t False"] Cons.prems
  obtain res' where r: "reloadFromString_loop nz gr rn ca nid (i + 1) es (result_add res t False) st = (Inr res', st)"
    "changedAny res' = changedAny (result_add res t False)"
    "set (result_tests res') = set (result_tests (result_add res t False))
        \<union> {item_id t | e t. e \<in> set es
              \<and> lookup_test (path_key (gr e)) (tc_name e) (root_children st) = Some t}"
    by auto
  have "set (result_tests res') = set (result_tests res)
            \<union> {item_id t | e' t. e' \<in> set (e # es)
                  \<and> lookup_test (path_key (gr e')) (tc_name e') (root_children st) = Some t}"
    using r(3) lk by (auto simp: result_add_def set_add_def)
  then show ?case using r(1,2) unfold by (simp add: result_add_def)
qed

lemma loop_lastReloadTime:
  "reloadFromString_loop nz gr rn ca nid i es res st = (out, st')
     \<Longrightarrow> lastReloadTime st' = lastReloadTime st"
proof (induction es arbitrary: i res st)
  case Nil
  then show ?case by simp
next
  case (Cons e es)
  show ?case
  proof (cases "ca i")
    case True
    with Cons.prems show ?thesis by simp
  next
    case False
    obtain cs o1 where step: "createSubtreeAndAddTest (gr e) (tc_name e)
            (new_DOCTest nz rn (nid i) (tc_name e) (tc_skipped e) (tc_filePath e) (tc_line e) (tc_tags e))
            (DOC_updateTest nz (tc_filePath e) (tc_line e) (tc_tags e) (tc_skipped e)) (root_children st) = (cs, o1)"
      by (cases "createSubtreeAndAddTest (gr e) (tc_name e)
            (new_DOCTest nz rn (nid i) (tc_name e) (tc_skipped e) (tc_filePath e) (tc_line e) (tc_tags e))
            (DOC_updateTest nz (tc_filePath e) (tc_line e) (tc_tags e) (tc_skipped e)) (root_children st)")
    show ?thesis
    proof (cases o1)
      case (Inl err)
      with Cons.prems False step show ?thesis by auto
    next
      case (Inr r)
      obtain t ch cr where r: "r = (t, ch, cr)" by (cases r)
      from Cons.prems False step Inr r
      have "reloadFromString_loop nz gr rn ca nid (i + 1) es (result_add res t ch)
               (st\<lparr> root_children := cs,
                    known_tests := (if cr then set_add (item_id t) (known_tests st) else known_tests st) \<rparr>) = (out, st')"
        by simp
      from Cons.IH [OF this] show ?thesis by simp
    qed
  qed
qed

text \<open>
  Without a cancellation a second reload of the same test list changes nothing, for
  the doctest runnable. The list output parses to \<open>testCases\<close>, in which no test case comes
  twice for the same group, and no cancellation arrives during the reloads. \<open>st1\<close> is the
  state after a reload that ran. A second reload of the same test cases either is
  skipped, exactly when both modification times are known and equal, and leaves the
  state as it is; or it runs and changes nothing but the recorded modification time: the
  tree with its groups, its tests and every field of every test, and the set \<open>_tests\<close>
  are those of \<open>st1\<close>. For every runnable, a reload at the modification time that is
  already recorded is skipped and leaves the state untouched, whatever \<open>_reloadChildren\<close>
  would do.
\<close>

lemma reload_without_cancellation:
  assumes nc: "\<forall>i. \<not> cancelled_at i"
    and dist: "distinct (map (entry_key grouping) testCases)"
    and first: "reloadTests False mtime_first (DOC_reloadChildren nz grouping this cancelled_at new_id testCases) st0
                  = (Reloaded, st1)"
  shows "lastReloadTime st1 = mtime_first
     \<and> reloadTests False mtime_second (DOC_reloadChildren nz grouping this cancelled_at new_id' testCases) st1
         = (if mtime_first = None \<or> mtime_second = None \<or> mtime_first \<noteq> mtime_second
            then (Reloaded, st1\<lparr> lastReloadTime := mtime_second \<rparr>)
            else (SkippedDueToMtime, st1))
     \<and> reloadTests False (Some m) reloadChildren (st\<lparr> lastReloadTime := Some m \<rparr>)
         = (SkippedDueToMtime, st\<lparr> lastReloadTime := Some m \<rparr>)"
proof -
  let ?rc = "DOC_reloadChildren nz grouping this cancelled_at new_id testCases"
  let ?rc' = "DOC_reloadChildren nz grouping this cancelled_at new_id' testCases"
  let ?key = "\<lambda>e. path_key (grouping e)"
  let ?settled = "\<lambda>e t. DOC_updateTest nz (tc_filePath e) (tc_line e) (tc_tags e) (tc_skipped e) t = Inr (False, t)"
  obtain o1 sta where rc1: "?rc (st0\<lparr> lastReloadTime := mtime_first \<rparr>) = (o1, sta)"
    by (cases "?rc (st0\<lparr> lastReloadTime := mtime_first \<rparr>)")
  from first have cond1: "lastReloadTime st0 = None \<or> mtime_first = None \<or> lastReloadTime st0 \<noteq> mtime_first"
    by (auto simp: reloadTests_def split: if_splits)
  from first cond1 rc1 obtain res1 where o1: "o1 = Inr res1"
    by (cases o1) (auto simp: reloadTests_def)
  define toRemove where "toRemove = filter (\<lambda>t. indexOf (result_tests res1) t = -1) (known_tests sta)"
  have tr: "set toRemove = {t \<in> set (known_tests sta). t \<notin> set (result_tests res1)}"
    by (auto simp: toRemove_def indexOf_minus1)
  have st1: "st1 = foldl remove_known_test sta toRemove"
  proof -
    from first cond1 rc1 o1
    have "st1 = (if length toRemove > 0 \<or> changedAny res1 then foldl remove_known_test sta toRemove else sta)"
      by (auto simp: reloadTests_def Let_def toRemove_def split: if_splits)
    then show ?thesis by (cases "toRemove = []") auto
  qed
  have loop1: "reloadFromString_loop nz grouping this cancelled_at new_id 0 testCases
       \<lparr> result_tests = [], changedAny = False \<rparr> (st0\<lparr> lastReloadTime := mtime_first \<rparr>) = (Inr res1, sta)"
    using rc1 o1 by (simp add: DOC_reloadChildren_def)
  from loop_first [OF loop1 nc dist]
  have f1: "\<forall>e \<in> set testCases. \<exists>t. lookup_test (?key e) (tc_name e) (root_children sta) = Some t
            \<and> ?settled e t \<and> item_id t \<in> set (result_tests res1)"
    and f3: "\<forall>x \<in> set (result_tests res1).
             (\<exists>e \<in> set testCases. \<exists>t. lookup_test (?key e) (tc_name e) (root_children sta) = Some t
                   \<and> item_id t = x)"
    by simp_all
  have keep: "lookup_test k n (root_children st1) = Some t"
    if "lookup_test k n (root_children sta) = Some t" "item_id t \<in> set (result_tests res1)" for k n t
    unfolding st1 using that by (intro foldl_remove_known_test_lookup) (auto simp: tr)
  have g1: "\<forall>e \<in> set testCases. \<exists>t. lookup_test (?key e) (tc_name e) (root_children st1) = Some t
            \<and> ?settled e t"
    using f1 keep by blast
  have known1: "set (known_tests st1) \<subseteq> set (result_tests res1)"
    using foldl_remove_known_test [of sta toRemove] by (auto simp: st1 tr)
  have time1: "lastReloadTime st1 = mtime_first"
    using foldl_remove_known_test [of sta toRemove] loop_lastReloadTime [OF loop1] by (simp add: st1)
  have second: "reloadTests False mtime_second ?rc' st1 = (Reloaded, st1\<lparr> lastReloadTime := mtime_second \<rparr>)"
    if cond2: "mtime_first = None \<or> mtime_second = None \<or> mtime_first \<noteq> mtime_second"
  proof -
    let ?st = "st1\<lparr> lastReloadTime := mtime_second \<rparr>"
    have "\<forall>e \<in> set testCases. \<exists>t. lookup_test (?key e) (tc_name e) (root_children ?st) = Some t
            \<and> ?settled e t"
      using g1 by simp
    from loop_second [OF this nc, where rn = this and nid = new_id' and i = 0
        and res = "\<lparr> result_tests = [], changedAny = False \<rparr>"]
    obtain res2 where rc2: "?rc' ?st = (Inr res2, ?st)" and ch2: "\<not> changedAny res2"
      and ids2: "set (result_tests res2) = {item_id t | e t. e \<in> set testCases
                  \<and> lookup_test (?key e) (tc_name e) (root_children st1) = Some t}"
      by (auto simp: DOC_reloadChildren_def)
    have "x \<in> set (result_tests res2)" if "x \<in> set (known_tests st1)" for x
    proof -
      from that known1 have "x \<in> set (result_tests res1)" by auto
      with f3 obtain e t where e: "e \<in> set testCases"
        and lk: "lookup_test (?key e) (tc_name e) (root_children sta) = Some t" and x: "item_id t = x"
        by blast
      from keep [OF lk] \<open>x \<in> set (result_tests res1)\<close> x
      have "lookup_test (?key e) (tc_name e) (root_children st1) = Some t" by simp
      then show ?thesis using e x by (auto simp: ids2)
    qed
    then have none: "filter (\<lambda>t. indexOf (result_tests res2) t = -1) (known_tests st1) = []"
      by (auto simp: filter_empty_conv indexOf_minus1)
    show ?thesis
      using cond2 by (simp add: reloadTests_def time1 rc2 none ch2 Let_def)
  qed
  have skip: "reloadTests False mtime_second ?rc' st1 = (SkippedDueToMtime, st1)"
    if "\<not> (mtime_first = None \<or> mtime_second = None \<or> mtime_first \<noteq> mtime_second)"
    using that by (auto simp: reloadTests_def time1)
  have general: "reloadTests False (Some m) reloadChildren (st\<lparr> lastReloadTime := Some m \<rparr>)
         = (SkippedDueToMtime, st\<lparr> lastReloadTime := Some m \<rparr>)"
    by (simp add: reloadTests_def)
  show ?thesis using time1 second skip general by simp
qed

text \<open>
  With an error test in the group of the executable, the next reload of a list output
  finds the error test for the first name, whatever the name is, and the update raises:
  the reload is rejected and the tree stays as it is.
\<close>

lemma reload_with_error_test:
  "createAndAddError id \<lparr> runnable_id = 1, markAsSkipped = False \<rparr> 5 6
      [(''exe'', ''bin/'', ''Path'')] ''Unexpected ERROR while parsing'' ''stderr: warning''
      \<lparr> lastReloadTime = Some 1, known_tests = [], root_children = [] \<rparr>
   = (Inr \<lparr> result_tests = [5], changedAny = True \<rparr>,
      \<lparr> lastReloadTime = Some 1, known_tests = [5],
        root_children = [SuiteItem ''exe'' ''bin/'' ''Path''
          [TestItem \<lparr> item_id = 5, testNameAsId = ''Unexpected ERROR while parsing'',
             label = ''Unexpected ERROR while parsing'', src_file = None, src_line = None,
             own_skipped = True, tags = [],
             testDescription = Some (glyph_flash @ '' Run me for details '' @ glyph_flash),
             typeParam = None, valueParam = None,
             staticEvent = Some \<lparr> static_object = 6, static_state = Errored,
                                  static_message = ''stderr: warning'' \<rparr>,
             test_state = \<lparr> state = Skipped, messages = None \<rparr>,
             aRunnable = \<lparr> runnable_id = 1, markAsSkipped = False \<rparr>,
             test_class = ErrorTest \<rparr>]] \<rparr>)
   \<and> fst (reloadTests False (Some 2)
        (DOC_reloadChildren id (\<lambda>e. [(''exe'', ''bin/'', ''Path'')])
           \<lparr> runnable_id = 1, markAsSkipped = False \<rparr> (\<lambda>i. False) (\<lambda>i. 10 + i) two_test_cases)
        (snd (createAndAddError id \<lparr> runnable_id = 1, markAsSkipped = False \<rparr> 5 6
           [(''exe'', ''bin/'', ''Path'')] ''Unexpected ERROR while parsing'' ''stderr: warning''
           \<lparr> lastReloadTime = Some 1, known_tests = [], root_children = [] \<rparr>)))
     = ReloadRejected"
  by code_simp

text \<open>
  C6 at a concrete input. The executable lists the test cases \<open>adds\<close> and \<open>subtracts\<close>,
  and the first reload, at the modification time 1, puts both tests into the tree. The
  executable is built again and lists the same test cases, so the enumeration result is
  unchanged. The second reload, at the modification time 2, starts with the cancellation
  flag down, and the flag is up when the loop of \<open>_reloadFromString\<close> comes to the second
  test case: the loop returns the result it has so far, which names \<open>adds\<close> only, and
  \<open>reloadTests\<close> removes \<open>subtracts\<close> from the tree and from \<open>_tests\<close>. The tree has changed
  although the enumeration result has not. A third reload at the modification time 2,
  with no cancellation, is skipped, and \<open>subtracts\<close> stays out of the tree.
\<close>

theorem C6_cancelled_reload_removes_tests:
  "reloadTests False (Some 1)
      (DOC_reloadChildren id (\<lambda>e. [(''exe'', ''bin/'', ''Path'')])
         \<lparr> runnable_id = 1, markAsSkipped = False \<rparr> (\<lambda>i. False) (\<lambda>i. 10 + i) two_test_cases)
      \<lparr> lastReloadTime = None, known_tests = [], root_children = [] \<rparr>
   = (Reloaded,
      \<lparr> lastReloadTime = Some 1, known_tests = [10, 11],
        root_children = [SuiteItem ''exe'' ''bin/'' ''Path''
                           [TestItem test_adds, TestItem test_subtracts]] \<rparr>)
   \<and> reloadTests False (Some 2)
      (DOC_reloadChildren id (\<lambda>e. [(''exe'', ''bin/'', ''Path'')])
         \<lparr> runnable_id = 1, markAsSkipped = False \<rparr> (\<lambda>i. 1 \<le> i) (\<lambda>i. 20 + i) two_test_cases)
      \<lparr> lastReloadTime = Some 1, known_tests = [10, 11],
        root_children = [SuiteItem ''exe'' ''bin/'' ''Path''
                           [TestItem test_adds, TestItem test_subtracts]] \<rparr>
   = (Reloaded,
      \<lparr> lastReloadTime = Some 2, known_tests = [10],
        root_children = [SuiteItem ''exe'' ''bin/'' ''Path'' [TestItem test_adds]] \<rparr>)
   \<and> reloadTests False (Some 2)
      (DOC_reloadChildren id (\<lambda>e. [(''exe'', ''bin/'', ''Path'')])
         \<lparr> runnable_id = 1, markAsSkipped = False \<rparr> (\<lambda>i. False) (\<lambda>i. 30 + i) two_test_cases)
      \<lparr> lastReloadTime = Some 2, known_tests = [10],
        root_children = [SuiteItem ''exe'' ''bin/'' ''Path'' [TestItem test_adds]] \<rparr>
   = (SkippedDueToMtime,
      \<lparr> lastReloadTime = Some 2, known_tests = [10],
        root_children = [SuiteItem ''exe'' ''bin/'' ''Path'' [TestItem test_adds]] \<rparr>)"
  by code_simp

end
